theory Spec2Isabelle
  imports Complex_Main "HOL-Library.Sublist" "HOL-Library.FSet" "HOL-Library.Multiset"
begin

section \<open>JavaScript strings\<close>

text \<open>
  A JavaScript string is a sequence of UTF-16 code units. The model uses \<^typ>\<open>string\<close>,
  whose characters are the code units below 256 (the Latin-1 range); code units above that
  range are outside the model. In this range the white space of \<^verbatim>\<open>String.prototype.trim\<close>
  and of the regular-expression class \<^verbatim>\<open>\s\<close> is TAB, LF, VT, FF, CR, SPACE and NBSP.
\<close>

definition is_space :: "char \<Rightarrow> bool" where
  "is_space c \<longleftrightarrow> (of_char c :: nat) \<in> {9, 10, 11, 12, 13, 32, 160}"

definition NL :: string where
  "NL = [CHR 0x0A]"

text \<open>\<^verbatim>\<open>s.trim()\<close>\<close>

definition js_trim :: "string \<Rightarrow> string" where
  "js_trim s = rev (dropWhile is_space (rev (dropWhile is_space s)))"

text \<open>\<^verbatim>\<open>xs.join(sep)\<close>\<close>

fun js_join :: "string \<Rightarrow> string list \<Rightarrow> string" where
  "js_join sep [] = []"
| "js_join sep [x] = x"
| "js_join sep (x # y # ys) = x @ sep @ js_join sep (y # ys)"

section \<open>Turn reassembly (the message handler of the streaming socket)\<close>

text \<open>
  A \<^verbatim>\<open>Turn\<close> payload. A field that the provider left out is \<open>None\<close>.
\<close>

record turn_data =
  turn_order :: "int option"
  end_of_turn :: bool
  transcript :: "string option"
  utterance :: "string option"

datatype message =
    Begin string
  | Turn turn_data
  | Termination
  | Other

datatype notification =
    session_start string
  | partial_transcript string
  | final_transcript string string
  | session_end string

text \<open>
  The closure state of one connection. \<open>completedTurns\<close> is the JavaScript \<^verbatim>\<open>Map\<close>
  from turn order to text, kept as the list of its entries in insertion order, which is
  the order in which \<^verbatim>\<open>Array.from(completedTurns.entries())\<close> lists them.
\<close>

record session =
  sessionId :: string
  completedTurns :: "(int \<times> string) list"
  currentPartialText :: string

definition map_has :: "(int \<times> string) list \<Rightarrow> int \<Rightarrow> bool" where
  "map_has m k \<longleftrightarrow> k \<in> set (map fst m)"

text \<open>\<^verbatim>\<open>Map.prototype.set\<close>: an existing key keeps its place, a new key goes last.\<close>

fun map_set :: "(int \<times> string) list \<Rightarrow> int \<Rightarrow> string \<Rightarrow> (int \<times> string) list" where
  "map_set [] k v = [(k, v)]"
| "map_set ((k', v') # m) k v = (if k' = k then (k, v) # m else (k', v') # map_set m k v)"

text \<open>
  \<^verbatim>\<open>Array.from(completedTurns.entries()).sort((a, b) => a[0] - b[0]).map(([_, text]) => text)
  .join(' ').trim()\<close>; \<^verbatim>\<open>Array.prototype.sort\<close> is stable.
\<close>

definition buildFullTranscript :: "(int \<times> string) list \<Rightarrow> string" where
  "buildFullTranscript m = js_trim (js_join '' '' (map snd (sort_key fst m)))"

text \<open>\<^verbatim>\<open>data.turn_order ?? 0\<close>\<close>

definition turnOrder :: "turn_data \<Rightarrow> int" where
  "turnOrder d = (case turn_order d of Some n \<Rightarrow> n | None \<Rightarrow> 0)"

text \<open>
  \<^verbatim>\<open>(data.utterance || data.transcript || '').trim()\<close>: an absent or empty field is
  falsy, so the next operand is taken.
\<close>

definition turnText :: "turn_data \<Rightarrow> string" where
  "turnText d =
     js_trim (case utterance d of
                Some u \<Rightarrow> if u \<noteq> [] then u
                          else (case transcript d of Some t \<Rightarrow> t | None \<Rightarrow> [])
              | None \<Rightarrow> (case transcript d of Some t \<Rightarrow> t | None \<Rightarrow> []))"

text \<open>
  One run of the \<^verbatim>\<open>assemblyWs.on('message', ...)\<close> handler on a parsed message: the new
  state and the notifications sent to the client, in order. A message that does not parse
  is caught and logged by the handler and changes nothing; \<open>Other\<close> stands for every
  message type that the \<^verbatim>\<open>switch\<close> does not name.
\<close>

fun on_message :: "session \<Rightarrow> message \<Rightarrow> session \<times> notification list" where
  "on_message s (Begin i) = (s\<lparr>sessionId := i\<rparr>, [session_start i])"
| "on_message s (Turn d) =
     (if end_of_turn d then
        (if turnText d \<noteq> [] \<and> \<not> map_has (completedTurns s) (turnOrder d) then
           (let m = map_set (completedTurns s) (turnOrder d) (turnText d)
            in (s\<lparr>completedTurns := m, currentPartialText := []\<rparr>,
                [final_transcript (turnText d) (buildFullTranscript m)]))
         else (s, []))
      else
        (case transcript d of
           Some t \<Rightarrow> if t \<noteq> [] then (s\<lparr>currentPartialText := t\<rparr>, [partial_transcript t])
                     else (s, [])
         | None \<Rightarrow> (s, [])))"
| "on_message s Termination = (s, [session_end (buildFullTranscript (completedTurns s))])"
| "on_message s Other = (s, [])"

text \<open>The handler run on a sequence of messages, in arrival order.\<close>

fun on_messages :: "session \<Rightarrow> message list \<Rightarrow> session \<times> notification list" where
  "on_messages s [] = (s, [])"
| "on_messages s (m # ms) =
     (let (s1, out1) = on_message s m; (s2, out2) = on_messages s1 ms
      in (s2, out1 @ out2))"

text \<open>The state when the connection opens: no completed turn, no partial text.\<close>

definition new_session :: "string \<Rightarrow> session" where
  "new_session i = \<lparr>sessionId = i, completedTurns = [], currentPartialText = []\<rparr>"

section \<open>Text analytics: tokenizer and segmenter\<close>

text \<open>The regular-expression classes \<^verbatim>\<open>\w\<close> and \<^verbatim>\<open>\d\<close>.\<close>

definition is_digit :: "char \<Rightarrow> bool" where
  "is_digit c \<longleftrightarrow> 48 \<le> (of_char c :: nat) \<and> (of_char c :: nat) \<le> 57"

definition is_word :: "char \<Rightarrow> bool" where
  "is_word c \<longleftrightarrow>
     (let n = (of_char c :: nat)
      in (48 \<le> n \<and> n \<le> 57) \<or> (65 \<le> n \<and> n \<le> 90) \<or> n = 95 \<or> (97 \<le> n \<and> n \<le> 122))"

text \<open>
  \<^verbatim>\<open>toLowerCase\<close> on the code units below 256: the ASCII capitals, and the Latin-1
  capitals 0xC0 to 0xDE apart from the multiplication sign 0xD7.
\<close>

definition to_lower_char :: "char \<Rightarrow> char" where
  "to_lower_char c =
     (let n = (of_char c :: nat)
      in if (65 \<le> n \<and> n \<le> 90) \<or> (192 \<le> n \<and> n \<le> 222 \<and> n \<noteq> 215)
         then char_of (n + 32) else c)"

definition toLowerCase :: "string \<Rightarrow> string" where
  "toLowerCase s = map to_lower_char s"

text \<open>\<^verbatim>\<open>s.split(/\s+/)\<close>: \<open>cur\<close> is the piece read so far.\<close>

function split_ws_from :: "string \<Rightarrow> string \<Rightarrow> string list" where
  "split_ws_from cur [] = [cur]"
| "split_ws_from cur (c # cs) =
     (if is_space c then cur # split_ws_from [] (dropWhile is_space cs)
      else split_ws_from (cur @ [c]) cs)"
  by pat_completeness auto
termination
  by (relation "measure (\<lambda>(cur, s). length s)")
     (auto intro: le_imp_less_Suc length_dropWhile_le)

definition split_ws :: "string \<Rightarrow> string list" where
  "split_ws s = split_ws_from [] s"

text \<open>\<^verbatim>\<open>s.split(sep)\<close> for a non-empty separator string \<open>sep\<close>.\<close>

function split_str_from :: "string \<Rightarrow> string \<Rightarrow> string \<Rightarrow> string list" where
  "split_str_from sep cur [] = [cur]"
| "split_str_from sep cur (c # cs) =
     (if sep \<noteq> [] \<and> prefix sep (c # cs)
      then cur # split_str_from sep [] (drop (length sep) (c # cs))
      else split_str_from sep (cur @ [c]) cs)"
  by pat_completeness auto
termination
  by (relation "measure (\<lambda>(sep, cur, s). length s)") auto

definition split_str :: "string \<Rightarrow> string \<Rightarrow> string list" where
  "split_str sep s = split_str_from sep [] s"

definition STOP_WORDS :: "string list" where
  "STOP_WORDS =
    [''i'', ''me'', ''my'', ''myself'', ''we'', ''our'', ''ours'', ''ourselves'', ''you'', ''your'', ''yours'',
     ''yourself'', ''yourselves'', ''he'', ''him'', ''his'', ''himself'', ''she'', ''her'', ''hers'', ''herself'',
     ''it'', ''its'', ''itself'', ''they'', ''them'', ''their'', ''theirs'', ''themselves'', ''what'', ''which'',
     ''who'', ''whom'', ''this'', ''that'', ''these'', ''those'', ''am'', ''is'', ''are'', ''was'', ''were'', ''be'',
     ''been'', ''being'', ''have'', ''has'', ''had'', ''having'', ''do'', ''does'', ''did'', ''doing'', ''a'', ''an'',
     ''the'', ''and'', ''but'', ''if'', ''or'', ''because'', ''as'', ''until'', ''while'', ''of'', ''at'', ''by'',
     ''for'', ''with'', ''about'', ''against'', ''between'', ''into'', ''through'', ''during'', ''before'',
     ''after'', ''above'', ''below'', ''to'', ''from'', ''up'', ''down'', ''in'', ''out'', ''on'', ''off'', ''over'',
     ''under'', ''again'', ''further'', ''then'', ''once'', ''here'', ''there'', ''when'', ''where'', ''why'',
     ''how'', ''all'', ''each'', ''few'', ''more'', ''most'', ''other'', ''some'', ''such'', ''no'', ''nor'', ''not'',
     ''only'', ''own'', ''same'', ''so'', ''than'', ''too'', ''very'', ''s'', ''t'', ''can'', ''will'', ''just'',
     ''don'', ''should'', ''now'', ''d'', ''ll'', ''m'', ''o'', ''re'', ''ve'', ''y'', ''ain'', ''aren'', ''couldn'',
     ''didn'', ''doesn'', ''hadn'', ''hasn'', ''haven'', ''isn'', ''ma'', ''mightn'', ''mustn'', ''needn'',
     ''shan'', ''shouldn'', ''wasn'', ''weren'', ''won'', ''wouldn'', ''um'', ''uh'', ''like'', ''know'', ''yeah'',
     ''okay'', ''ok'', ''right'', ''well'', ''going'', ''got'', ''get'', ''thing'', ''things'', ''way'', ''would'',
     ''could'', ''also'', ''really'', ''actually'', ''basically'', ''just'', ''think'', ''something'', ''kind'']"

text \<open>
  \<^verbatim>\<open>text.toLowerCase().replace(/[^\w\s]/g, ' ').split(/\s+/).filter(word => word.length > 1)\<close>
\<close>

definition tokenize :: "string \<Rightarrow> string list" where
  "tokenize text =
     filter (\<lambda>word. length word > 1)
       (split_ws (map (\<lambda>c. if is_word c \<or> is_space c then c else CHR '' '') (toLowerCase text)))"

definition getContentWords :: "string \<Rightarrow> string list" where
  "getContentWords text =
     filter (\<lambda>word. word \<notin> set STOP_WORDS \<and> length word > 2) (tokenize text)"

text \<open>\<^verbatim>\<open>.replace(/([.!?])\s+/g, '$1|||')\<close>\<close>

function mark_sentence_ends :: "string \<Rightarrow> string" where
  "mark_sentence_ends [] = []"
| "mark_sentence_ends (c # cs) =
     (if c \<in> set ''.!?'' \<and> cs \<noteq> [] \<and> is_space (hd cs)
      then c # ''|||'' @ mark_sentence_ends (dropWhile is_space cs)
      else c # mark_sentence_ends cs)"
  by pat_completeness auto
termination
  by (relation "measure length") (auto intro: le_imp_less_Suc length_dropWhile_le)

text \<open>\<^verbatim>\<open>.replace(/,\s+/g, '|||')\<close>\<close>

function mark_commas :: "string \<Rightarrow> string" where
  "mark_commas [] = []"
| "mark_commas (c # cs) =
     (if c = CHR '','' \<and> cs \<noteq> [] \<and> is_space (hd cs)
      then ''|||'' @ mark_commas (dropWhile is_space cs)
      else c # mark_commas cs)"
  by pat_completeness auto
termination
  by (relation "measure length") (auto intro: le_imp_less_Suc length_dropWhile_le)

text \<open>
  A pattern of lower-case ASCII letters and spaces matches, under the flag \<^verbatim>\<open>i\<close>, at the
  start of \<open>s\<close>.
\<close>

definition ci_prefix :: "string \<Rightarrow> string \<Rightarrow> bool" where
  "ci_prefix a s \<longleftrightarrow> length a \<le> length s \<and> toLowerCase (take (length a) s) = a"

definition conjunctions :: "string list" where
  "conjunctions =
     [''and'', ''but'', ''so'', ''because'', ''however'', ''therefore'', ''then'', ''also'']"

text \<open>
  The rest of \<^verbatim>\<open>/\s+(and|but|so|because|however|therefore|then|also)\s+/gi\<close> once the
  leading white space has been read: the word as it is written in the text, and the text
  after the white space that follows the word.
\<close>

definition conj_match :: "string \<Rightarrow> (string \<times> string) option" where
  "conj_match s =
     (case find (\<lambda>a. ci_prefix a s \<and> drop (length a) s \<noteq> [] \<and> is_space (hd (drop (length a) s)))
             conjunctions of
        Some a \<Rightarrow> Some (take (length a) s, dropWhile is_space (drop (length a) s))
      | None \<Rightarrow> None)"

text \<open>\<^verbatim>\<open>.replace(/\s+(and|but|...)\s+/gi, '|||$1 ')\<close>\<close>

function mark_conjunctions :: "string \<Rightarrow> string" where
  "mark_conjunctions [] = []"
| "mark_conjunctions (c # cs) =
     (if is_space c then
        (case conj_match (dropWhile is_space cs) of
           Some (w, r) \<Rightarrow> ''|||'' @ w @ '' '' @ mark_conjunctions r
         | None \<Rightarrow> c # mark_conjunctions cs)
      else c # mark_conjunctions cs)"
  by pat_completeness auto
termination
proof (relation "measure length")
  show "wf (measure length)" by simp
next
  fix c :: char and cs x2 w r
  assume m: "conj_match (dropWhile is_space cs) = Some x2" and x2: "(w, r) = x2"
  from m x2 have "length r \<le> length (dropWhile is_space cs)"
    unfolding conj_match_def
    by (auto split: option.splits intro!: order_trans [OF length_dropWhile_le])
  also have "\<dots> \<le> length cs"
    by (rule length_dropWhile_le)
  finally show "(r, c # cs) \<in> measure length" by simp
qed auto

text \<open>The third tier: windows of 15 words, kept when longer than 15 characters.\<close>

function word_chunks :: "string list \<Rightarrow> string list" where
  "word_chunks ws =
     (if ws = [] then []
      else (let chunk = js_join '' '' (take 15 ws)
            in (if length chunk > 15 then [chunk] else []) @ word_chunks (drop 15 ws)))"
  by pat_completeness auto
termination
  by (relation "measure length") auto

declare word_chunks.simps [simp del]

definition splitIntoSentences :: "string \<Rightarrow> string list" where
  "splitIntoSentences text =
     (let sentences1 =
            filter (\<lambda>s. length s > 10)
              (map js_trim (split_str ''|||'' (mark_sentence_ends text)));
          sentences2 =
            (if length sentences1 < 3 \<and> length text > 100
             then filter (\<lambda>s. length s > 15)
                    (map js_trim (split_str ''|||'' (mark_conjunctions (mark_commas text))))
             else sentences1);
          sentences3 =
            (if length sentences2 < 3 \<and> length text > 100
             then word_chunks (split_ws text)
             else sentences2)
      in sentences3)"

section \<open>Similarity engine\<close>

text \<open>
  A JavaScript \<^verbatim>\<open>Set\<close> that is only asked for membership and size is a finite set.
  The quotient of the two sizes is taken in the reals; the JavaScript number is the
  double nearest to it.
\<close>

definition jaccardSimilarity :: "'a fset \<Rightarrow> 'a fset \<Rightarrow> real" where
  "jaccardSimilarity set1 set2 =
     (let intersection_set = ffilter (\<lambda>x. x |\<in>| set2) set1;
          union_set = set1 |\<union>| set2
      in if fcard union_set > 0
         then real (fcard intersection_set) / real (fcard union_set)
         else 0)"

section \<open>Extractive summarizer\<close>

text \<open>
  A JavaScript \<^verbatim>\<open>Map\<close> from words to counts, as the list of its entries in insertion
  order. \<open>bump m w\<close> is \<^verbatim>\<open>m.set(w, (m.get(w) || 0) + 1)\<close> and \<open>count_of m w\<close> is
  \<^verbatim>\<open>m.get(w) || 0\<close>.
\<close>

fun bump :: "(string \<times> nat) list \<Rightarrow> string \<Rightarrow> (string \<times> nat) list" where
  "bump [] w = [(w, 1)]"
| "bump ((k, n) # m) w = (if k = w then (k, n + 1) # m else (k, n) # bump m w)"

definition count_of :: "(string \<times> nat) list \<Rightarrow> string \<Rightarrow> nat" where
  "count_of m w = (case map_of m w of Some n \<Rightarrow> n | None \<Rightarrow> 0)"

definition wordFreq :: "string list \<Rightarrow> (string \<times> nat) list" where
  "wordFreq ws = fold (\<lambda>word m. bump m word) ws []"

text \<open>
  In how many sentences each word occurs: every sentence bumps each member of the set of
  its content words once.
\<close>

definition wordDocFreq :: "string list \<Rightarrow> (string \<times> nat) list" where
  "wordDocFreq sentences =
     fold (\<lambda>sentence m. fold (\<lambda>word m. bump m word) (remdups (getContentWords sentence)) m)
       sentences []"

text \<open>
  The scores are JavaScript doubles, and the language does not fix \<^verbatim>\<open>Math.log\<close> to the
  last bit. The model computes the scores in the reals (\<^verbatim>\<open>Math.log\<close> as \<open>ln\<close>,
  \<^verbatim>\<open>Math.sqrt\<close> as \<open>sqrt\<close>), so it ranks the segments as the code does where their
  scores are well apart, and may rank them otherwise where scores tie or nearly tie: the
  sum of the same terms in another order is one real and can be two doubles. Nothing
  below rests on the order of a ranking: the facts about the selection are proved for
  every permutation of the scored segments, and the texts that are evaluated select all
  their segments.
\<close>

definition calculateTFIDF :: "string list \<Rightarrow> real list" where
  "calculateTFIDF sentences =
     (let docFreq = wordDocFreq sentences;
          numDocs = length sentences
      in map (\<lambda>sentence.
           let ws = getContentWords sentence;
               freq = wordFreq ws;
               maxFreq = fold max (map snd freq) 1;
               total = sum_list (map (\<lambda>word.
                         (real (count_of freq word) / real maxFreq) *
                         ln (real numDocs /
                             real (if count_of docFreq word = 0 then 1 else count_of docFreq word)))
                       ws)
           in total / sqrt (real (if length ws = 0 then 1 else length ws)))
         sentences)"

definition positionScore :: "nat \<Rightarrow> nat \<Rightarrow> real" where
  "positionScore n idx =
     (if idx = 0 then 1.5
      else if idx = n - 1 then 1.2
      else if real idx < real n * 0.2 then 1.1
      else 1.0)"

text \<open>
  \<^verbatim>\<open>/\b(a1|a2|...)\b/i.test(s)\<close> for alternatives that are lower-case ASCII words:
  \<^verbatim>\<open>\b\<close> holds at a position whose two neighbours differ in being word characters,
  the ends of the string counting as non-word.
\<close>

definition word_boundary :: "string \<Rightarrow> nat \<Rightarrow> bool" where
  "word_boundary s i \<longleftrightarrow>
     (0 < i \<and> is_word (s ! (i - 1))) \<noteq> (i < length s \<and> is_word (s ! i))"

definition regex_words_test :: "string list \<Rightarrow> string \<Rightarrow> bool" where
  "regex_words_test alts s \<longleftrightarrow>
     list_ex (\<lambda>i. word_boundary s i \<and>
                  list_ex (\<lambda>a. ci_prefix a (drop i s) \<and> word_boundary s (i + length a)) alts)
       [0..<Suc (length s)]"

text \<open>
  The six keyword patterns. The second one has two more alternatives, written in
  Japanese, which no string of the model contains.
\<close>

definition importantPatterns :: "string list list" where
  "importantPatterns =
     [[''important'', ''key'', ''main'', ''critical'', ''essential'', ''significant'', ''crucial''],
      [''conclusion'', ''summary'', ''result'', ''finding''],
      [''must'', ''need to'', ''have to'', ''should'', ''required'', ''necessary''],
      [''goal'', ''objective'', ''purpose'', ''aim'', ''target''],
      [''problem'', ''issue'', ''challenge'', ''solution'', ''resolve''],
      [''first'', ''second'', ''third'', ''finally'', ''lastly'', ''in conclusion'']]"

definition actionPattern :: "string list" where
  "actionPattern =
     [''need to'', ''have to'', ''must'', ''should'', ''will'', ''going to'', ''plan to'', ''todo'',
      ''task'', ''action'', ''deadline'', ''by'', ''until'', ''before'']"

definition keywordScore :: "string \<Rightarrow> real" where
  "keywordScore s =
     fold (\<lambda>pattern score. if regex_words_test pattern s then score + 0.3 else score)
       importantPatterns 1.0"

record scored =
  sentence :: string
  index :: nat
  score :: real
  isAction :: bool

definition combinedScores :: "string list \<Rightarrow> scored list" where
  "combinedScores sentences =
     (let tfidfScores = calculateTFIDF sentences
      in map (\<lambda>idx.
           \<lparr>sentence = sentences ! idx,
            index = idx,
            score = tfidfScores ! idx * positionScore (length sentences) idx
                    * keywordScore (sentences ! idx),
            isAction = regex_words_test actionPattern (sentences ! idx)\<rparr>)
         [0..<length sentences])"

text \<open>
  \<^verbatim>\<open>[...combinedScores].sort((a, b) => b.score - a.score)\<close>: a stable sort, highest
  score first.
\<close>

definition rankedSentences :: "scored list \<Rightarrow> scored list" where
  "rankedSentences cs = sort_key (\<lambda>item. - score item) cs"

text \<open>\<^verbatim>\<open>Math.min(Math.max(2, Math.ceil(sentenceCount * 0.3)), 5)\<close>\<close>

definition targetSentences :: "nat \<Rightarrow> nat" where
  "targetSentences sentenceCount = min (max 2 (nat \<lceil>real sentenceCount * 0.3\<rceil>)) 5"

text \<open>
  The selection loop: \<^verbatim>\<open>for (const item of rankedSentences)\<close> with its \<^verbatim>\<open>break\<close>. The
  state is \<open>selectedIndices\<close> and \<open>summaryParts\<close>; a part is the pair of \<open>index\<close> and
  \<open>sentence\<close>.
\<close>

fun select_loop ::
  "nat \<Rightarrow> scored list \<Rightarrow> nat fset \<times> (nat \<times> string) list \<Rightarrow> nat fset \<times> (nat \<times> string) list"
where
  "select_loop target [] (sel, parts) = (sel, parts)"
| "select_loop target (item # rest) (sel, parts) =
     (if length parts \<ge> target then (sel, parts)
      else select_loop target rest
             (finsert (index item) sel, parts @ [(index item, sentence item)]))"

definition selectedIndices :: "string list \<Rightarrow> nat fset" where
  "selectedIndices sentences =
     fst (select_loop (targetSentences (length sentences))
            (rankedSentences (combinedScores sentences)) ({||}, []))"

text \<open>\<open>summaryParts\<close> after \<^verbatim>\<open>summaryParts.sort((a, b) => a.index - b.index)\<close>.\<close>

definition summaryParts :: "string list \<Rightarrow> (nat \<times> string) list" where
  "summaryParts sentences =
     sort_key fst
       (snd (select_loop (targetSentences (length sentences))
               (rankedSentences (combinedScores sentences)) ({||}, [])))"

text \<open>\<^verbatim>\<open>.replace(/\.\./g, '.')\<close>\<close>

fun collapse_dots :: "string \<Rightarrow> string" where
  "collapse_dots (a # b # cs) =
     (if a = CHR ''.'' \<and> b = CHR ''.'' then CHR ''.'' # collapse_dots cs
      else a # collapse_dots (b # cs))"
| "collapse_dots cs = cs"

text \<open>The local \<open>summary\<close>: \<^verbatim>\<open>summaryParts.map(p => p.sentence).join('. ').replace(...)\<close>\<close>

definition summaryText :: "string list \<Rightarrow> string" where
  "summaryText sentences = collapse_dots (js_join ''. '' (map snd (summaryParts sentences)))"

definition keyPointsOf :: "string list \<Rightarrow> string list" where
  "keyPointsOf sentences =
     (let keyPoints0 =
            map sentence
              (take 5 (filter (\<lambda>item. index item |\<notin>| selectedIndices sentences)
                         (rankedSentences (combinedScores sentences))))
      in if length keyPoints0 < 3
         then fold (\<lambda>p kps. if length kps < 5 \<and> snd p \<notin> set kps then kps @ [snd p] else kps)
                (summaryParts sentences) keyPoints0
         else keyPoints0)"

definition actionItemsOf :: "string list \<Rightarrow> string list" where
  "actionItemsOf sentences = map sentence (take 5 (filter isAction (combinedScores sentences)))"

text \<open>
  The compression ratio is computed in doubles (IEEE 754 binary64), which are rationals.
  A division or a multiplication gives the double nearest to the exact result, a tie
  going to the even significand: \<open>double_of x\<close> for the exact result \<open>x\<close>, a multiple of
  \<open>2 powi (e - 52)\<close> where \<open>2 powi e \<le> \<bar>x\<bar> < 2 powi (e + 1)\<close>. The model puts no bound
  on the exponent, so it is the arithmetic of the code for results between \<open>2 powi -1022\<close>
  and \<open>2 powi 1024\<close>; the quotient of two array lengths (below \<open>2 ^ 32\<close>) and a hundred
  times it lie there. \<open>bit_length n\<close> is the number of binary digits of \<open>n\<close>.
\<close>

function bit_length :: "int \<Rightarrow> nat" where
  "bit_length n = (if n \<le> 0 then 0 else Suc (bit_length (n div 2)))"
  by pat_completeness auto
termination
  by (relation "measure nat") auto

declare bit_length.simps [simp del]

definition round_half_even :: "rat \<Rightarrow> int" where
  "round_half_even x =
     (let f = \<lfloor>x\<rfloor>; r = x - of_int f
      in if r < 1 / 2 then f else if 1 / 2 < r then f + 1 else if even f then f else f + 1)"

text \<open>The exponent \<open>e\<close> of a positive rational: \<open>2 powi e \<le> x < 2 powi (e + 1)\<close>.\<close>

definition double_exponent :: "rat \<Rightarrow> int" where
  "double_exponent x =
     (let d = int (bit_length (fst (quotient_of x))) - int (bit_length (snd (quotient_of x)))
      in if 2 powi d \<le> x then d else d - 1)"

definition double_of :: "rat \<Rightarrow> rat" where
  "double_of x =
     (if x = 0 then 0
      else (let u = 2 powi (double_exponent \<bar>x\<bar> - 52)
            in sgn x * of_int (round_half_even (\<bar>x\<bar> / u)) * u))"

text \<open>
  \<^verbatim>\<open>Math.round\<close> of a double: the nearest integer, a half going up. It is exact: no
  rounding of its own comes in.
\<close>

definition js_round :: "rat \<Rightarrow> int" where
  "js_round x = \<lfloor>x + 1 / 2\<rfloor>"

text \<open>The result object; a property that a return path leaves out is \<open>None\<close>.\<close>

record SummaryResult =
  keyPoints :: "string list"
  summary :: string
  actionItems :: "string list"
  wordCount :: nat
  sentenceCount :: nat
  compressionRatio :: "int option"

definition generateAdvancedSummary :: "string \<Rightarrow> SummaryResult" where
  "generateAdvancedSummary text =
     (if length (js_trim text) = 0 then
        \<lparr>keyPoints = [], summary = [], actionItems = [], wordCount = 0, sentenceCount = 0,
         compressionRatio = None\<rparr>
      else
        (let cleanText = js_trim text;
             ws = split_ws cleanText;
             wc = length ws
         in if wc < 30 then
              \<lparr>keyPoints = [cleanText], summary = cleanText, actionItems = [], wordCount = wc,
               sentenceCount = 1, compressionRatio = None\<rparr>
            else
              (let sentences = splitIntoSentences cleanText;
                   summary_local = summaryText sentences
               in \<lparr>keyPoints = keyPointsOf sentences,
                   summary = (if summary_local \<noteq> [] then summary_local
                              else take 200 cleanText @ ''...''),
                   actionItems = actionItemsOf sentences,
                   wordCount = wc,
                   sentenceCount = length sentences,
                   compressionRatio =
                     Some (js_round
                       (double_of
                          (double_of (of_nat (length (split_ws summary_local)) / of_nat wc)
                           * 100)))\<rparr>)))"

section \<open>Note enhancement\<close>

definition noteLines :: "string \<Rightarrow> string list" where
  "noteLines existingNotes =
     filter (\<lambda>line. length line > 0) (map js_trim (split_str NL existingNotes))"

definition noteTopics :: "string list \<Rightarrow> (string \<times> nat) list" where
  "noteTopics lines =
     fold (\<lambda>line m. fold (\<lambda>word m. if length word > 3 then bump m word else m)
                      (getContentWords line) m)
       lines []"

definition topTopics :: "string list \<Rightarrow> string fset" where
  "topTopics lines =
     fset_of_list (map fst (take 20 (sort_key (\<lambda>e. - int (snd e)) (noteTopics lines))))"

text \<open>
  One round of \<^verbatim>\<open>transcriptSentences.forEach\<close>. The state is \<open>relatedInfo\<close>, whose items
  are pairs of \<open>sentence\<close> and \<open>matchCount\<close> (the property \<open>topics\<close> is never read), and
  \<open>newInfo\<close>.
\<close>

definition classify ::
  "string list \<Rightarrow> string \<Rightarrow> (string \<times> nat) list \<times> string list
     \<Rightarrow> (string \<times> nat) list \<times> string list"
where
  "classify lines sent st =
     (let sentenceWords = fset_of_list (getContentWords sent);
          matchingTopics = ffilter (\<lambda>word. word |\<in>| topTopics lines) sentenceWords;
          isDuplicate =
            list_ex (\<lambda>line. jaccardSimilarity (fset_of_list (getContentWords line)) sentenceWords
                              > 0.4) lines
      in if \<not> isDuplicate \<and> length sent > 20 then
           (if fcard matchingTopics \<ge> 1
            then (fst st @ [(sent, fcard matchingTopics)], snd st)
            else (fst st, snd st @ [sent]))
         else st)"

text \<open>\<open>relatedInfo\<close> after \<^verbatim>\<open>relatedInfo.sort((a, b) => b.matchCount - a.matchCount)\<close>.\<close>

definition relatedInfo :: "string \<Rightarrow> string \<Rightarrow> (string \<times> nat) list" where
  "relatedInfo existingNotes transcription =
     sort_key (\<lambda>item. - int (snd item))
       (fst (fold (classify (noteLines existingNotes)) (splitIntoSentences transcription)
               ([], [])))"

definition newInfo :: "string \<Rightarrow> string \<Rightarrow> string list" where
  "newInfo existingNotes transcription =
     snd (fold (classify (noteLines existingNotes)) (splitIntoSentences transcription) ([], []))"

text \<open>
  \<^verbatim>\<open>line.startsWith('-') || line.startsWith('*') || /^\d+\./.test(line)\<close>
\<close>

definition is_list_item :: "string \<Rightarrow> bool" where
  "is_list_item line \<longleftrightarrow>
     prefix ''-'' line \<or> prefix ''*'' line \<or>
     (takeWhile is_digit line \<noteq> [] \<and> prefix ''.'' (dropWhile is_digit line))"

definition generateEnhancedNotes :: "string \<Rightarrow> string \<Rightarrow> string" where
  "generateEnhancedNotes existingNotes transcription =
     (let lines = noteLines existingNotes;
          transcriptSummary = generateAdvancedSummary transcription;
          related = relatedInfo existingNotes transcription;
          new = newInfo existingNotes transcription;
          e0 = ''# Enhanced Notes'' @ NL @ NL;
          e1 = e0 @ ''## Original Notes'' @ NL;
          e2 = fold (\<lambda>line e. if is_list_item line then e @ line @ NL
                               else e @ ''- '' @ line @ NL) lines e1;
          e3 = e2 @ NL;
          e4 = (if length related > 0 then
                  fold (\<lambda>item e. e @ ''- '' @ fst item @ NL) (take 6 related)
                    (e3 @ ''## Expanded Details from Recording'' @ NL
                        @ ''_Information from the recording that relates to your notes:_''
                        @ NL @ NL)
                  @ NL
                else e3);
          e5 = (if length new > 0 then
                  fold (\<lambda>s e. e @ ''- '' @ s @ NL) (take 5 new)
                    (e4 @ ''## New Information from Recording'' @ NL
                        @ ''_Additional topics discussed that weren't in your original notes:_''
                        @ NL @ NL)
                  @ NL
                else e4);
          e6 = (if length (keyPoints transcriptSummary) > 0 then
                  fold (\<lambda>point e. e @ ''- '' @ point @ NL) (take 5 (keyPoints transcriptSummary))
                    (e5 @ ''## Key Points'' @ NL)
                  @ NL
                else e5);
          e7 = (if length (actionItems transcriptSummary) > 0 then
                  fold (\<lambda>item e. e @ ''- [ ] '' @ item @ NL) (actionItems transcriptSummary)
                    (e6 @ ''## Action Items'' @ NL)
                  @ NL
                else e6);
          e8 = e7 @ ''## Recording Summary'' @ NL;
          e9 = e8 @ summary transcriptSummary @ NL
      in e9)"

text \<open>
  The layout that the specification gives to a derived section of the enhanced document:
  its heading lines and its entries, followed by an empty line, and nothing at all when
  it has no entry. It is not taken from the code; the code is compared with it.
\<close>

definition optional_section :: "string \<Rightarrow> string list \<Rightarrow> string" where
  "optional_section heading entries =
     (if entries = [] then [] else heading @ concat entries @ NL)"

section \<open>Auxiliary facts\<close>

subsection \<open>Trimming and joining\<close>

lemma js_trim_Nil [simp]: "js_trim [] = []"
  by (simp add: js_trim_def)

lemma dropWhile_id_hd: "xs \<noteq> [] \<Longrightarrow> \<not> P (hd xs) \<Longrightarrow> dropWhile P xs = xs"
  by (cases xs) simp_all

lemma dropWhile_shorter_hd: "xs \<noteq> [] \<Longrightarrow> P (hd xs) \<Longrightarrow> length (dropWhile P xs) < length xs"
  by (cases xs) (simp_all add: le_imp_less_Suc length_dropWhile_le)

lemma js_trim_eq_iff:
  "js_trim s = s \<longleftrightarrow> s = [] \<or> (\<not> is_space (hd s) \<and> \<not> is_space (last s))"
proof (cases "s = []")
  case True
  then show ?thesis by simp
next
  case ne: False
  then have rne: "rev s \<noteq> []" by simp
  have hr: "hd (rev s) = last s" using ne by (simp add: hd_rev)
  show ?thesis
  proof (cases "is_space (hd s)")
    case True
    have "length (js_trim s) = length (dropWhile is_space (rev (dropWhile is_space s)))"
      by (simp add: js_trim_def)
    also have "\<dots> \<le> length (rev (dropWhile is_space s))"
      by (rule length_dropWhile_le)
    also have "\<dots> < length s"
      using dropWhile_shorter_hd [of s is_space] ne True by simp
    finally have "js_trim s \<noteq> s" by auto
    with True ne show ?thesis by simp
  next
    case False
    then have d: "dropWhile is_space s = s" using ne by (simp add: dropWhile_id_hd)
    show ?thesis
    proof (cases "is_space (last s)")
      case True
      then have "length (dropWhile is_space (rev s)) < length (rev s)"
        using dropWhile_shorter_hd [of "rev s" is_space] rne hr by simp
      then have "length (js_trim s) < length s"
        by (simp add: js_trim_def d)
      then have "js_trim s \<noteq> s" by auto
      with True ne show ?thesis by simp
    next
      case l: False
      then have "dropWhile is_space (rev s) = rev s"
        using dropWhile_id_hd [of "rev s" is_space] rne hr by simp
      then have "js_trim s = s" by (simp add: js_trim_def d)
      with False l ne show ?thesis by simp
    qed
  qed
qed

lemma js_trim_idem [simp]: "js_trim (js_trim s) = js_trim s"
proof -
  let ?t = "js_trim s"
  have "?t = [] \<or> (\<not> is_space (hd ?t) \<and> \<not> is_space (last ?t))"
  proof (cases "?t = []")
    case True
    then show ?thesis by simp
  next
    case False
    let ?d = "dropWhile is_space s"
    let ?r = "dropWhile is_space (rev ?d)"
    have t: "?t = rev ?r" by (simp add: js_trim_def)
    have r: "?r \<noteq> []" using False unfolding t by simp
    then have hr: "\<not> is_space (hd ?r)" by (rule hd_dropWhile)
    have "last ?t = hd ?r" using r unfolding t by (simp add: last_rev)
    with hr have l: "\<not> is_space (last ?t)" by simp
    have d: "?d \<noteq> []"
    proof
      assume "?d = []"
      then have "?r = []" by (simp only: rev.simps dropWhile.simps)
      with r show False ..
    qed
    then have hd: "\<not> is_space (hd ?d)" by (rule hd_dropWhile)
    have "rev ?d = takeWhile is_space (rev ?d) @ ?r"
      by (simp only: takeWhile_dropWhile_id)
    then have "rev (rev ?d) = rev (takeWhile is_space (rev ?d) @ ?r)" by (rule arg_cong)
    then have "?d = ?t @ rev (takeWhile is_space (rev ?d))"
      unfolding t by (simp only: rev_rev_ident rev_append)
    then have "hd ?d = hd (?t @ rev (takeWhile is_space (rev ?d)))" by (rule arg_cong)
    also have "\<dots> = hd ?t" using False by (rule hd_append2)
    finally have "\<not> is_space (hd ?t)" using hd by simp
    with l show ?thesis by simp
  qed
  then show ?thesis by (simp only: js_trim_eq_iff)
qed

lemma js_join_Cons: "ts \<noteq> [] \<Longrightarrow> js_join sep (t # ts) = t @ sep @ js_join sep ts"
  by (cases ts) simp_all

lemma js_join_eq_Nil: "\<forall>t\<in>set ts. t \<noteq> [] \<Longrightarrow> js_join sep ts = [] \<longleftrightarrow> ts = []"
  by (induction sep ts rule: js_join.induct) auto

lemma hd_js_join: "ts \<noteq> [] \<Longrightarrow> hd ts \<noteq> [] \<Longrightarrow> hd (js_join sep ts) = hd (hd ts)"
  by (cases ts; cases "tl ts") auto

lemma last_js_join:
  "ts \<noteq> [] \<Longrightarrow> \<forall>t\<in>set ts. t \<noteq> [] \<Longrightarrow> last (js_join sep ts) = last (last ts)"
proof (induction sep ts rule: js_join.induct)
  case (3 sep x y ys)
  then have "js_join sep (y # ys) \<noteq> []" by (simp add: js_join_eq_Nil)
  with 3 show ?case by simp
qed simp_all

lemma js_trim_js_join:
  assumes "\<forall>t\<in>set ts. t \<noteq> [] \<and> js_trim t = t"
  shows "js_trim (js_join sep ts) = js_join sep ts"
proof (cases "ts = []")
  case True
  then show ?thesis by simp
next
  case False
  with assms have h: "hd ts \<in> set ts" and l: "last ts \<in> set ts" by simp_all
  from assms h have "\<not> is_space (hd (hd ts))" "hd ts \<noteq> []" by (auto simp: js_trim_eq_iff)
  moreover from assms l have "\<not> is_space (last (last ts))" by (auto simp: js_trim_eq_iff)
  ultimately show ?thesis
    using False assms by (simp add: js_trim_eq_iff hd_js_join last_js_join)
qed

subsection \<open>The map of completed turns\<close>

lemma map_set_fresh: "\<not> map_has m k \<Longrightarrow> map_set m k v = m @ [(k, v)]"
  by (induction m k v rule: map_set.induct) (auto simp: map_has_def)

lemma map_has_append: "map_has (m @ [(k, v)]) k' \<longleftrightarrow> map_has m k' \<or> k' = k"
  by (auto simp: map_has_def)

lemma completedTurns_on_message_final:
  "end_of_turn d \<Longrightarrow>
   completedTurns (fst (on_message s (Turn d))) =
     (if turnText d \<noteq> [] \<and> \<not> map_has (completedTurns s) (turnOrder d)
      then completedTurns s @ [(turnOrder d, turnText d)] else completedTurns s)"
  by (simp add: Let_def map_set_fresh)

lemma fst_on_messages_Cons:
  "fst (on_messages s (m # ms)) = fst (on_messages (fst (on_message s m)) ms)"
  by (simp add: split_beta Let_def)

lemma completedTurns_on_turns:
  assumes "\<forall>d\<in>set ds. end_of_turn d"
    and "distinct (map turnOrder ds)"
    and "\<forall>d\<in>set ds. \<not> map_has (completedTurns s) (turnOrder d)"
  shows "completedTurns (fst (on_messages s (map Turn ds))) =
           completedTurns s @
           map (\<lambda>d. (turnOrder d, turnText d)) (filter (\<lambda>d. turnText d \<noteq> []) ds)"
  using assms
proof (induction ds arbitrary: s)
  case Nil
  then show ?case by simp
next
  case (Cons d ds)
  let ?s1 = "fst (on_message s (Turn d))"
  have e: "end_of_turn d" and fresh: "\<not> map_has (completedTurns s) (turnOrder d)"
    using Cons.prems by simp_all
  have c1: "completedTurns ?s1 =
              (if turnText d \<noteq> [] then completedTurns s @ [(turnOrder d, turnText d)]
               else completedTurns s)"
    using completedTurns_on_message_final [OF e, of s] fresh by simp
  have "\<forall>d'\<in>set ds. \<not> map_has (completedTurns ?s1) (turnOrder d')"
  proof
    fix d' assume d': "d' \<in> set ds"
    from Cons.prems(2) have "turnOrder d \<notin> turnOrder ` set ds" by simp
    with d' have "turnOrder d' \<noteq> turnOrder d" by (metis imageI)
    moreover have "\<not> map_has (completedTurns s) (turnOrder d')" using Cons.prems(3) d' by simp
    ultimately show "\<not> map_has (completedTurns ?s1) (turnOrder d')"
      unfolding c1 by (simp add: map_has_append)
  qed
  moreover have "\<forall>d\<in>set ds. end_of_turn d" "distinct (map turnOrder ds)"
    using Cons.prems by simp_all
  ultimately have "completedTurns (fst (on_messages ?s1 (map Turn ds))) =
      completedTurns ?s1 @
      map (\<lambda>d. (turnOrder d, turnText d)) (filter (\<lambda>d. turnText d \<noteq> []) ds)"
    by (intro Cons.IH)
  then show ?case
    unfolding list.map fst_on_messages_Cons c1 by simp
qed

subsection \<open>Sorting by key\<close>

lemma insort_key_map:
  "insort_key f (g x) (map g ys) = map g (insort_key (\<lambda>y. f (g y)) x ys)"
  by (induction ys) simp_all

lemma sort_key_map: "sort_key f (map g xs) = map g (sort_key (\<lambda>y. f (g y)) xs)"
proof (induction xs)
  case Nil
  show ?case by simp
next
  case (Cons x xs)
  have "sort_key f (map g (x # xs)) = insort_key f (g x) (sort_key f (map g xs))"
    by simp
  also have "\<dots> = insort_key f (g x) (map g (sort_key (\<lambda>y. f (g y)) xs))"
    by (simp only: Cons.IH)
  also have "\<dots> = map g (insort_key (\<lambda>y. f (g y)) x (sort_key (\<lambda>y. f (g y)) xs))"
    by (rule insort_key_map)
  finally show ?case by simp
qed

lemma filter_key_singleton:
  "distinct (map f zs) \<Longrightarrow> k \<in> set zs \<Longrightarrow> filter (\<lambda>x. f k = f x) zs = [k]"
proof (induction zs)
  case Nil
  then show ?case by simp
next
  case (Cons z zs)
  show ?case
  proof (cases "k = z")
    case True
    have "\<forall>x\<in>set zs. f z \<noteq> f x" using Cons.prems(1) by auto
    then have "filter (\<lambda>x. f z = f x) zs = []" by (simp add: filter_empty_conv)
    with True show ?thesis by simp
  next
    case False
    with Cons.prems have k: "k \<in> set zs" by simp
    moreover have "f z \<notin> f ` set zs" using Cons.prems(1) by simp
    ultimately have "f k \<noteq> f z" by (metis imageI)
    moreover have "filter (\<lambda>x. f k = f x) zs = [k]"
      using Cons.IH k Cons.prems(1) by simp
    ultimately show ?thesis by simp
  qed
qed

lemma sort_key_perm:
  assumes "mset xs = mset ys" and "distinct (map f ys)"
  shows "sort_key f xs = sort_key f ys"
proof (rule properties_for_sort_key)
  show "mset (sort_key f ys) = mset xs" using assms by simp
  show "sorted (map f (sort_key f ys))" by simp
  fix k assume "k \<in> set (sort_key f ys)"
  then have k: "k \<in> set ys" by simp
  have "mset (map f xs) = mset (map f ys)" using assms(1) by simp
  then have dx: "distinct (map f xs)"
    using assms(2) by (rule mset_eq_imp_distinct_iff [THEN iffD2])
  have "mset (map f (sort_key f ys)) = mset (map f ys)" by simp
  then have ds: "distinct (map f (sort_key f ys))"
    using assms(2) by (rule mset_eq_imp_distinct_iff [THEN iffD2])
  have "set xs = set ys" using assms(1) by (rule mset_eq_setD)
  with k have kx: "k \<in> set xs" by simp
  have "filter (\<lambda>x. f k = f x) (sort_key f ys) = [k]"
    using ds k by (intro filter_key_singleton) simp_all
  moreover have "filter (\<lambda>x. f k = f x) xs = [k]"
    using dx kx by (rule filter_key_singleton)
  ultimately show "filter (\<lambda>x. f k = f x) (sort_key f ys) = filter (\<lambda>x. f k = f x) xs"
    by simp
qed

subsection \<open>The transcript of a run of completed turns\<close>

lemma turn_transcript_sorted:
  assumes "\<forall>d\<in>set ds. end_of_turn d" and "distinct (map turnOrder ds)"
  shows "buildFullTranscript (completedTurns (fst (on_messages (new_session i) (map Turn ds)))) =
           js_join '' '' (filter (\<lambda>t. t \<noteq> []) (map turnText (sort_key turnOrder ds)))"
proof -
  let ?P = "\<lambda>d. turnText d \<noteq> []"
  have "completedTurns (fst (on_messages (new_session i) (map Turn ds))) =
          map (\<lambda>d. (turnOrder d, turnText d)) (filter ?P ds)"
    using completedTurns_on_turns [OF assms, of "new_session i"]
    by (simp add: new_session_def map_has_def)
  moreover have "map snd (sort_key fst (map (\<lambda>d. (turnOrder d, turnText d)) (filter ?P ds))) =
                   filter (\<lambda>t. t \<noteq> []) (map turnText (sort_key turnOrder ds))"
  proof -
    have "sort_key fst (map (\<lambda>d. (turnOrder d, turnText d)) (filter ?P ds)) =
            map (\<lambda>d. (turnOrder d, turnText d)) (sort_key turnOrder (filter ?P ds))"
      by (rule sort_key_map [of fst "\<lambda>d. (turnOrder d, turnText d)", simplified])
    also have "sort_key turnOrder (filter ?P ds) = filter ?P (sort_key turnOrder ds)"
      by (rule filter_sort [symmetric])
    finally show ?thesis by (simp add: filter_map comp_def)
  qed
  moreover have "js_trim (js_join '' '' (filter (\<lambda>t. t \<noteq> []) (map turnText (sort_key turnOrder ds)))) =
                   js_join '' '' (filter (\<lambda>t. t \<noteq> []) (map turnText (sort_key turnOrder ds)))"
    by (rule js_trim_js_join) (auto simp: turnText_def)
  ultimately show ?thesis by (simp add: buildFullTranscript_def)
qed

subsection \<open>Two spaces in a row\<close>

lemma is_space_space [simp]: "is_space (CHR '' '')"
  by (simp add: is_space_def)

lemma pair_sublist_append:
  assumes "sublist [c, c] (a @ b)"
  shows "sublist [c, c] a \<or> sublist [c, c] b \<or> (a \<noteq> [] \<and> last a = c \<and> b \<noteq> [] \<and> hd b = c)"
proof -
  from assms obtain ps ss where eq: "a @ b = ps @ ([c, c] @ ss)"
    unfolding sublist_def by blast
  then obtain us where us: "(a = ps @ us \<and> us @ b = [c, c] @ ss) \<or> (a @ us = ps \<and> b = us @ ([c, c] @ ss))"
    unfolding append_eq_append_conv2 by blast
  then show ?thesis
  proof
    assume h: "a = ps @ us \<and> us @ b = [c, c] @ ss"
    show ?thesis
    proof (cases us)
      case Nil
      with h have "b = [] @ [c, c] @ ss" by simp
      then have "sublist [c, c] b" unfolding sublist_def by blast
      then show ?thesis by simp
    next
      case (Cons u us')
      note c1 = Cons
      show ?thesis
      proof (cases us')
        case Nil
        with c1 h have "a = ps @ [c]" "b = c # ss" by simp_all
        then show ?thesis by simp
      next
        case (Cons u' us'')
        with c1 h have "a = ps @ [c, c] @ us''" by simp
        then have "sublist [c, c] a" unfolding sublist_def by blast
        then show ?thesis by simp
      qed
    qed
  next
    assume "a @ us = ps \<and> b = us @ ([c, c] @ ss)"
    then have "sublist [c, c] b" unfolding sublist_def by blast
    then show ?thesis by simp
  qed
qed

lemma no_pair_join:
  assumes "\<forall>t\<in>set ts. t \<noteq> [] \<and> hd t \<noteq> c \<and> last t \<noteq> c \<and> \<not> sublist [c, c] t"
  shows "\<not> sublist [c, c] (js_join [c] ts)"
  using assms
proof (induction ts)
  case Nil
  show ?case by simp
next
  case (Cons x ts)
  show ?case
  proof (cases "ts = []")
    case True
    with Cons.prems show ?thesis by simp
  next
    case False
    let ?J = "js_join [c] ts"
    have J: "\<not> sublist [c, c] ?J" using Cons by simp
    have ne: "?J \<noteq> []" using Cons.prems False by (simp add: js_join_eq_Nil)
    have "hd ts \<in> set ts" using False by simp
    then have "hd ts \<noteq> []" "hd (hd ts) \<noteq> c" using Cons.prems by auto
    then have hJ: "hd ?J \<noteq> c" using False by (simp add: hd_js_join)
    have lx: "last x \<noteq> c" "\<not> sublist [c, c] x" using Cons.prems by auto
    show ?thesis
    proof
      assume "sublist [c, c] (js_join [c] (x # ts))"
      then have "sublist [c, c] (x @ (c # ?J))" using False by (simp add: js_join_Cons)
      then have "sublist [c, c] (c # ?J)"
        using pair_sublist_append [of c x "c # ?J"] lx by auto
      then have "prefix [c, c] (c # ?J)"
        using J by (simp add: sublist_Cons_right)
      then have "hd ?J = c" using ne by (cases ?J) auto
      with hJ show False ..
    qed
  qed
qed

subsection \<open>What every message preserves\<close>

lemma map_of_append_keep: "map_of m k = Some t \<Longrightarrow> map_of (m @ m') k = Some t"
  by (simp add: map_add_Some_iff)

lemma on_message_keeps_text:
  "map_of (completedTurns s) k = Some t \<Longrightarrow>
   map_of (completedTurns (fst (on_message s m))) k = Some t"
  by (cases m) (auto simp: Let_def map_set_fresh map_of_append_keep split: option.splits)

lemma on_messages_keeps_text:
  "map_of (completedTurns s) k = Some t \<Longrightarrow>
   map_of (completedTurns (fst (on_messages s ms))) k = Some t"
proof (induction ms arbitrary: s)
  case Nil
  then show ?case by simp
next
  case (Cons m ms)
  then show ?case
    unfolding fst_on_messages_Cons by (intro Cons.IH on_message_keeps_text)
qed

lemma duplicate_noop:
  "end_of_turn d \<Longrightarrow> map_has (completedTurns s) (turnOrder d) \<Longrightarrow> on_message s (Turn d) = (s, [])"
  by simp

lemma texts_trimmed_on_message:
  assumes "\<forall>(k, t)\<in>set (completedTurns s). t \<noteq> [] \<and> js_trim t = t"
  shows "\<forall>(k, t)\<in>set (completedTurns (fst (on_message s m))). t \<noteq> [] \<and> js_trim t = t"
proof (cases m)
  case (Turn d)
  show ?thesis
  proof (cases "end_of_turn d")
    case True
    have "js_trim (turnText d) = turnText d" by (simp add: turnText_def)
    then show ?thesis
      using assms unfolding Turn completedTurns_on_message_final [OF True] by auto
  next
    case False
    then show ?thesis using assms Turn by (simp split: option.splits)
  qed
qed (use assms in simp_all)

lemma texts_trimmed_on_messages:
  assumes "\<forall>(k, t)\<in>set (completedTurns s). t \<noteq> [] \<and> js_trim t = t"
  shows "\<forall>(k, t)\<in>set (completedTurns (fst (on_messages s ms))). t \<noteq> [] \<and> js_trim t = t"
  using assms
proof (induction ms arbitrary: s)
  case Nil
  then show ?case by simp
next
  case (Cons m ms)
  show ?case
    unfolding fst_on_messages_Cons
    by (rule Cons.IH) (rule texts_trimmed_on_message [OF Cons.prems])
qed

section \<open>Turn reassembly: the claims\<close>

text \<open>
  C1 (amended). For Turn events that all have \<open>end_of_turn\<close> set and pairwise distinct
  order keys, handled from a fresh session in any arrival order, the full transcript is
  the single-space join of the non-empty turn texts (utterance, else transcript, trimmed)
  in ascending order of the keys, and every permutation of the events gives the same
  transcript. A turn whose text is empty contributes nothing, not even a separator.
\<close>

theorem turn_transcript_ordering:
  assumes "\<forall>d\<in>set ds. end_of_turn d" and "distinct (map turnOrder ds)"
  shows "buildFullTranscript (completedTurns (fst (on_messages (new_session i) (map Turn ds)))) =
           js_join '' '' (filter (\<lambda>t. t \<noteq> []) (map turnText (sort_key turnOrder ds)))
         \<and> (\<forall>ds'. mset ds' = mset ds \<longrightarrow>
               buildFullTranscript (completedTurns (fst (on_messages (new_session i) (map Turn ds')))) =
               buildFullTranscript (completedTurns (fst (on_messages (new_session i) (map Turn ds)))))"
proof (intro conjI allI impI)
  show "buildFullTranscript (completedTurns (fst (on_messages (new_session i) (map Turn ds)))) =
          js_join '' '' (filter (\<lambda>t. t \<noteq> []) (map turnText (sort_key turnOrder ds)))"
    using assms by (rule turn_transcript_sorted)
next
  fix ds' assume p: "mset ds' = mset ds"
  then have "set ds' = set ds" by (rule mset_eq_setD)
  then have e: "\<forall>d\<in>set ds'. end_of_turn d" using assms(1) by simp
  have "mset (map turnOrder ds') = mset (map turnOrder ds)" using p by simp
  then have d: "distinct (map turnOrder ds')"
    using assms(2) by (rule mset_eq_imp_distinct_iff [THEN iffD2])
  have "sort_key turnOrder ds' = sort_key turnOrder ds"
    using p assms(2) by (rule sort_key_perm)
  then show "buildFullTranscript (completedTurns (fst (on_messages (new_session i) (map Turn ds')))) =
        buildFullTranscript (completedTurns (fst (on_messages (new_session i) (map Turn ds))))"
    by (simp only: turn_transcript_sorted [OF e d] turn_transcript_sorted [OF assms])
qed

text \<open>
  The scenario of the specification: key 2 arrives first, then key 1, and the transcript
  is the text of key 1, a space, the text of key 2.
\<close>

theorem turn_transcript_ordering_witness:
  "end_of_turn \<lparr>turn_order = Some 2, end_of_turn = True, transcript = Some ''world'', utterance = None\<rparr> \<and>
   end_of_turn \<lparr>turn_order = Some 1, end_of_turn = True, transcript = Some ''unused'',
                utterance = Some '' hello ''\<rparr> \<and>
   distinct (map turnOrder
     [\<lparr>turn_order = Some 2, end_of_turn = True, transcript = Some ''world'', utterance = None\<rparr>,
      \<lparr>turn_order = Some 1, end_of_turn = True, transcript = Some ''unused'',
       utterance = Some '' hello ''\<rparr>]) \<and>
   buildFullTranscript (completedTurns (fst (on_messages (new_session ''s'') (map Turn
     [\<lparr>turn_order = Some 2, end_of_turn = True, transcript = Some ''world'', utterance = None\<rparr>,
      \<lparr>turn_order = Some 1, end_of_turn = True, transcript = Some ''unused'',
       utterance = Some '' hello ''\<rparr>])))) = ''hello world''"
proof -
  let ?ds = "[\<lparr>turn_order = Some 2, end_of_turn = True, transcript = Some ''world'', utterance = None\<rparr>,
      \<lparr>turn_order = Some 1, end_of_turn = True, transcript = Some ''unused'',
       utterance = Some '' hello ''\<rparr>]"
  have h1: "\<forall>d\<in>set ?ds. end_of_turn d" by simp
  have h2: "distinct (map turnOrder ?ds)" by (simp add: turnOrder_def)
  have "js_join '' '' (filter (\<lambda>t. t \<noteq> []) (map turnText (sort_key turnOrder ?ds))) = ''hello world''"
    by code_simp
  with turn_transcript_ordering [OF h1 h2, of "''s''"] h1 h2 show ?thesis by simp
qed

text \<open>
  The claim as the specification states it fails when a turn has no text: key 2 arrives
  first with the text \<open>b\<close>, key 1 arrives with an empty transcript, and the transcript is
  \<open>b\<close>, not the empty text, a space and \<open>b\<close>.
\<close>

theorem turn_transcript_ordering_counterexample:
  "end_of_turn \<lparr>turn_order = Some 2, end_of_turn = True, transcript = Some ''b'', utterance = None\<rparr> \<and>
   end_of_turn \<lparr>turn_order = Some 1, end_of_turn = True, transcript = Some [], utterance = None\<rparr> \<and>
   turnOrder \<lparr>turn_order = Some 2, end_of_turn = True, transcript = Some ''b'', utterance = None\<rparr> = 2 \<and>
   turnOrder \<lparr>turn_order = Some 1, end_of_turn = True, transcript = Some [], utterance = None\<rparr> = 1 \<and>
   buildFullTranscript (completedTurns (fst (on_messages (new_session ''s'')
     [Turn \<lparr>turn_order = Some 2, end_of_turn = True, transcript = Some ''b'', utterance = None\<rparr>,
      Turn \<lparr>turn_order = Some 1, end_of_turn = True, transcript = Some [], utterance = None\<rparr>])))
   \<noteq> turnText \<lparr>turn_order = Some 1, end_of_turn = True, transcript = Some [], utterance = None\<rparr>
     @ '' '' @
     turnText \<lparr>turn_order = Some 2, end_of_turn = True, transcript = Some ''b'', utterance = None\<rparr>"
  by code_simp

text \<open>
  C2. A Turn event with \<open>end_of_turn\<close> whose order key is already recorded changes
  nothing and sends nothing; handling the same completed-turn event a second time leaves
  the state of the first time and sends nothing; and no message ever changes the text
  recorded for an order key.
\<close>

theorem duplicate_turn_ignored:
  "(end_of_turn d \<and> map_has (completedTurns s) (turnOrder d) \<longrightarrow> on_message s (Turn d) = (s, [])) \<and>
   (end_of_turn d \<longrightarrow>
      on_message (fst (on_message s (Turn d))) (Turn d) = (fst (on_message s (Turn d)), [])) \<and>
   (map_of (completedTurns s) k = Some t \<longrightarrow>
      map_of (completedTurns (fst (on_messages s ms))) k = Some t)"
proof (intro conjI impI)
  assume "end_of_turn d \<and> map_has (completedTurns s) (turnOrder d)"
  then show "on_message s (Turn d) = (s, [])" by simp
next
  assume e: "end_of_turn d"
  show "on_message (fst (on_message s (Turn d))) (Turn d) = (fst (on_message s (Turn d)), [])"
  proof (cases "turnText d \<noteq> [] \<and> \<not> map_has (completedTurns s) (turnOrder d)")
    case True
    then have "map_has (completedTurns (fst (on_message s (Turn d)))) (turnOrder d)"
      unfolding completedTurns_on_message_final [OF e] by (simp add: map_has_append)
    with e show ?thesis by (simp del: on_message.simps add: duplicate_noop)
  next
    case False
    with e have "on_message s (Turn d) = (s, [])" by auto
    then show ?thesis by simp
  qed
next
  assume "map_of (completedTurns s) k = Some t"
  then show "map_of (completedTurns (fst (on_messages s ms))) k = Some t"
    by (rule on_messages_keeps_text)
qed

theorem duplicate_turn_ignored_witness:
  "end_of_turn \<lparr>turn_order = Some 1, end_of_turn = True, transcript = Some ''b'', utterance = None\<rparr> \<and>
   map_has (completedTurns \<lparr>sessionId = ''s'', completedTurns = [(1, ''a'')], currentPartialText = ''p''\<rparr>)
     (turnOrder \<lparr>turn_order = Some 1, end_of_turn = True, transcript = Some ''b'', utterance = None\<rparr>) \<and>
   on_message \<lparr>sessionId = ''s'', completedTurns = [(1, ''a'')], currentPartialText = ''p''\<rparr>
     (Turn \<lparr>turn_order = Some 1, end_of_turn = True, transcript = Some ''b'', utterance = None\<rparr>)
   = (\<lparr>sessionId = ''s'', completedTurns = [(1, ''a'')], currentPartialText = ''p''\<rparr>, []) \<and>
   map_of (completedTurns \<lparr>sessionId = ''s'', completedTurns = [(1, ''a'')], currentPartialText = ''p''\<rparr>) 1
   = Some ''a'' \<and>
   map_of (completedTurns (fst (on_messages
       \<lparr>sessionId = ''s'', completedTurns = [(1, ''a'')], currentPartialText = ''p''\<rparr>
       [Turn \<lparr>turn_order = Some 1, end_of_turn = True, transcript = Some ''b'', utterance = None\<rparr>,
        Turn \<lparr>turn_order = Some 2, end_of_turn = True, transcript = Some ''c'', utterance = None\<rparr>]))) 1
   = Some ''a''"
proof -
  let ?d = "\<lparr>turn_order = Some 1, end_of_turn = True, transcript = Some ''b'', utterance = None\<rparr>"
  let ?s = "\<lparr>sessionId = ''s'', completedTurns = [(1, ''a'')], currentPartialText = ''p''\<rparr>"
  have h1: "end_of_turn ?d" by simp
  have h2: "map_has (completedTurns ?s) (turnOrder ?d)" by (simp add: map_has_def turnOrder_def)
  have h3: "map_of (completedTurns ?s) 1 = Some ''a''" by simp
  from duplicate_turn_ignored [of ?d ?s 1 "''a''"] h1 h2 h3 show ?thesis by blast
qed

text \<open>
  C10. A Turn event with \<open>end_of_turn\<close> whose trimmed text (utterance, else
  transcript) is empty changes nothing and sends nothing. So in every state reached from
  a fresh session each recorded text is non-empty and trimmed; the full transcript is then
  the plain single-space join of the recorded texts in key order, each separator standing
  between two non-empty texts that neither begin nor end with white space; and when no
  recorded text has two spaces in a row, neither has the transcript.
\<close>

theorem empty_turn_ignored:
  "(end_of_turn d \<and> turnText d = [] \<longrightarrow> on_message s (Turn d) = (s, [])) \<and>
   (\<forall>(k, t)\<in>set (completedTurns (fst (on_messages (new_session i) ms))).
       t \<noteq> [] \<and> js_trim t = t \<and> \<not> is_space (hd t) \<and> \<not> is_space (last t)) \<and>
   buildFullTranscript (completedTurns (fst (on_messages (new_session i) ms))) =
     js_join '' '' (map snd (sort_key fst (completedTurns (fst (on_messages (new_session i) ms))))) \<and>
   ((\<forall>(k, t)\<in>set (completedTurns (fst (on_messages (new_session i) ms))). \<not> sublist ''  '' t) \<longrightarrow>
      \<not> sublist ''  '' (buildFullTranscript (completedTurns (fst (on_messages (new_session i) ms)))))"
proof -
  let ?m = "completedTurns (fst (on_messages (new_session i) ms))"
  let ?ts = "map snd (sort_key fst ?m)"
  have inv: "\<forall>(k, t)\<in>set ?m. t \<noteq> [] \<and> js_trim t = t"
    by (rule texts_trimmed_on_messages) (simp add: new_session_def)
  then have inv': "\<forall>(k, t)\<in>set ?m. t \<noteq> [] \<and> js_trim t = t \<and> \<not> is_space (hd t) \<and> \<not> is_space (last t)"
    by (auto simp: js_trim_eq_iff)
  have ts: "\<forall>t\<in>set ?ts. t \<noteq> [] \<and> js_trim t = t" using inv by auto
  have bft: "buildFullTranscript ?m = js_join '' '' ?ts"
    unfolding buildFullTranscript_def using ts by (rule js_trim_js_join)
  have nd: "\<not> sublist ''  '' (buildFullTranscript ?m)" if h: "\<forall>(k, t)\<in>set ?m. \<not> sublist ''  '' t"
  proof -
    have "\<forall>t\<in>set ?ts. t \<noteq> [] \<and> hd t \<noteq> CHR '' '' \<and> last t \<noteq> CHR '' '' \<and> \<not> sublist ''  '' t"
    proof
      fix t assume "t \<in> set ?ts"
      then obtain k where kt: "(k, t) \<in> set ?m" by auto
      with inv' have "t \<noteq> []" "\<not> is_space (hd t)" "\<not> is_space (last t)" by auto
      moreover from h kt have "\<not> sublist ''  '' t" by auto
      ultimately show "t \<noteq> [] \<and> hd t \<noteq> CHR '' '' \<and> last t \<noteq> CHR '' '' \<and> \<not> sublist ''  '' t"
        using is_space_space by metis
    qed
    then have "\<not> sublist ''  '' (js_join '' '' ?ts)" by (rule no_pair_join)
    with bft show "\<not> sublist ''  '' (buildFullTranscript ?m)" by simp
  qed
  have first: "end_of_turn d \<and> turnText d = [] \<longrightarrow> on_message s (Turn d) = (s, [])" by simp
  from first inv' bft nd show ?thesis by blast
qed

theorem empty_turn_ignored_witness:
  "end_of_turn \<lparr>turn_order = Some 3, end_of_turn = True, transcript = Some ''  '', utterance = Some []\<rparr> \<and>
   turnText \<lparr>turn_order = Some 3, end_of_turn = True, transcript = Some ''  '', utterance = Some []\<rparr> = [] \<and>
   on_message \<lparr>sessionId = ''s'', completedTurns = [(1, ''a'')], currentPartialText = ''p''\<rparr>
     (Turn \<lparr>turn_order = Some 3, end_of_turn = True, transcript = Some ''  '', utterance = Some []\<rparr>)
   = (\<lparr>sessionId = ''s'', completedTurns = [(1, ''a'')], currentPartialText = ''p''\<rparr>, []) \<and>
   completedTurns (fst (on_messages (new_session ''s'')
     [Turn \<lparr>turn_order = Some 2, end_of_turn = True, transcript = Some ''c'', utterance = None\<rparr>,
      Turn \<lparr>turn_order = Some 3, end_of_turn = True, transcript = Some ''  '', utterance = Some []\<rparr>,
      Turn \<lparr>turn_order = Some 1, end_of_turn = True, transcript = Some '' a b '', utterance = None\<rparr>]))
   = [(2, ''c''), (1, ''a b'')] \<and>
   \<not> sublist ''  '' ''c'' \<and> \<not> sublist ''  '' ''a b'' \<and>
   \<not> sublist ''  '' (buildFullTranscript (completedTurns (fst (on_messages (new_session ''s'')
     [Turn \<lparr>turn_order = Some 2, end_of_turn = True, transcript = Some ''c'', utterance = None\<rparr>,
      Turn \<lparr>turn_order = Some 3, end_of_turn = True, transcript = Some ''  '', utterance = Some []\<rparr>,
      Turn \<lparr>turn_order = Some 1, end_of_turn = True, transcript = Some '' a b '', utterance = None\<rparr>]))))"
proof -
  let ?d = "\<lparr>turn_order = Some 3, end_of_turn = True, transcript = Some ''  '', utterance = Some []\<rparr>"
  let ?s = "\<lparr>sessionId = ''s'', completedTurns = [(1, ''a'')], currentPartialText = ''p''\<rparr>"
  let ?ms = "[Turn \<lparr>turn_order = Some 2, end_of_turn = True, transcript = Some ''c'', utterance = None\<rparr>,
      Turn ?d,
      Turn \<lparr>turn_order = Some 1, end_of_turn = True, transcript = Some '' a b '', utterance = None\<rparr>]"
  have h1: "end_of_turn ?d" by simp
  have h2: "turnText ?d = []" by code_simp
  have h3: "completedTurns (fst (on_messages (new_session ''s'') ?ms)) = [(2, ''c''), (1, ''a b'')]"
    by code_simp
  have h4: "\<not> sublist ''  '' ''c''" "\<not> sublist ''  '' ''a b''" by code_simp+
  from h3 h4 have h5: "\<forall>(k, t)\<in>set (completedTurns (fst (on_messages (new_session ''s'') ?ms))).
      \<not> sublist ''  '' t" by simp
  from empty_turn_ignored [of ?d ?s "''s''" ?ms] h1 h2 h3 h4 h5 show ?thesis by blast
qed

section \<open>Text analytics: the claims\<close>

subsection \<open>The three return paths of the summarizer\<close>

lemma js_trim_eq_Nil_iff: "js_trim s = [] \<longleftrightarrow> (\<forall>c\<in>set s. is_space c)"
proof
  assume "js_trim s = []"
  then have "dropWhile is_space (rev (dropWhile is_space s)) = []"
    by (simp add: js_trim_def)
  then have "\<forall>c\<in>set (dropWhile is_space s). is_space c"
    by (simp add: dropWhile_eq_Nil_conv)
  moreover have "\<forall>c\<in>set (takeWhile is_space s). is_space c"
    by (auto dest: set_takeWhileD)
  moreover have "set s = set (takeWhile is_space s) \<union> set (dropWhile is_space s)"
    by (metis set_append takeWhile_dropWhile_id)
  ultimately show "\<forall>c\<in>set s. is_space c" by auto
next
  assume "\<forall>c\<in>set s. is_space c"
  then have "dropWhile is_space s = []" by (simp add: dropWhile_eq_Nil_conv)
  then show "js_trim s = []" by (simp only: js_trim_def rev.simps dropWhile.simps)
qed

lemma summary_blank:
  "js_trim text = [] \<Longrightarrow>
   generateAdvancedSummary text =
     \<lparr>keyPoints = [], summary = [], actionItems = [], wordCount = 0, sentenceCount = 0,
      compressionRatio = None\<rparr>"
  by (simp add: generateAdvancedSummary_def)

lemma summary_short:
  "js_trim text \<noteq> [] \<Longrightarrow> length (split_ws (js_trim text)) < 30 \<Longrightarrow>
   generateAdvancedSummary text =
     \<lparr>keyPoints = [js_trim text], summary = js_trim text, actionItems = [],
      wordCount = length (split_ws (js_trim text)), sentenceCount = 1, compressionRatio = None\<rparr>"
  by (simp add: generateAdvancedSummary_def Let_def)

text \<open>
  C3. For all finite sets \<open>A\<close> and \<open>B\<close> the similarity is the size of the intersection
  divided by the size of the union, and 0 when the union is empty; it lies between 0 and
  1; it is 1 for a non-empty set and itself; and it is 0 for two empty sets.
\<close>

theorem jaccard_bounds:
  "jaccardSimilarity A B =
     (if A |\<union>| B = {||} then 0 else real (fcard (A |\<inter>| B)) / real (fcard (A |\<union>| B))) \<and>
   0 \<le> jaccardSimilarity A B \<and> jaccardSimilarity A B \<le> 1 \<and>
   (A \<noteq> {||} \<longrightarrow> jaccardSimilarity A A = 1) \<and>
   jaccardSimilarity ({||} :: 'a fset) {||} = 0"
  for A B :: "'a fset"
proof -
  have i: "ffilter (\<lambda>x. x |\<in>| B) A = A |\<inter>| B" for A B :: "'a fset" by auto
  have e: "fcard C > 0 \<longleftrightarrow> C \<noteq> {||}" for C :: "'a fset"
    using fcard_0_eq [of C] by (simp only: neq0_conv [symmetric])
  have eq: "jaccardSimilarity A B =
     (if A |\<union>| B = {||} then 0 else real (fcard (A |\<inter>| B)) / real (fcard (A |\<union>| B)))"
    for A B :: "'a fset"
    unfolding jaccardSimilarity_def Let_def i e by simp
  have le: "fcard (A |\<inter>| B) \<le> fcard (A |\<union>| B)"
    by (rule fcard_mono) auto
  have "0 \<le> jaccardSimilarity A B" unfolding eq by simp
  moreover have "jaccardSimilarity A B \<le> 1"
  proof (cases "A |\<union>| B = {||}")
    case True
    then show ?thesis unfolding eq by simp
  next
    case False
    then have "0 < real (fcard (A |\<union>| B))" using e [of "A |\<union>| B"] by simp
    then show ?thesis unfolding eq using le False by (simp add: divide_le_eq_1)
  qed
  moreover have "A \<noteq> {||} \<longrightarrow> jaccardSimilarity A A = 1"
    using e [of A] unfolding eq by simp
  moreover have "jaccardSimilarity ({||} :: 'a fset) {||} = 0" unfolding eq by simp
  ultimately show ?thesis using eq [of A B] by blast
qed

theorem jaccard_bounds_witness:
  "{|''budget'', ''timeline''|} \<noteq> {||} \<and>
   jaccardSimilarity {|''budget'', ''timeline''|} {|''budget'', ''timeline''|} = 1"
proof -
  have h: "{|''budget'', ''timeline''|} \<noteq> {||}" by simp
  from jaccard_bounds [of "{|''budget'', ''timeline''|}" "{|''budget'', ''timeline''|}"]
  have "{|''budget'', ''timeline''|} \<noteq> {||} \<longrightarrow>
        jaccardSimilarity {|''budget'', ''timeline''|} {|''budget'', ''timeline''|} = 1"
    by blast
  with h show ?thesis by blast
qed

text \<open>
  C7. On a text that is empty or has only white space the summarizer returns the result
  with no key point, the empty summary, no action item, word count 0 and sentence count 0.
\<close>

theorem blank_text_summary:
  "(\<forall>c\<in>set text. is_space c) \<longrightarrow>
   generateAdvancedSummary text =
     \<lparr>keyPoints = [], summary = [], actionItems = [], wordCount = 0, sentenceCount = 0,
      compressionRatio = None\<rparr>"
  by (simp add: js_trim_eq_Nil_iff [symmetric] summary_blank)

theorem blank_text_summary_witness:
  "list_all is_space ('' '' @ NL) \<and>
   generateAdvancedSummary ('' '' @ NL) =
     \<lparr>keyPoints = [], summary = [], actionItems = [], wordCount = 0, sentenceCount = 0,
      compressionRatio = None\<rparr>"
proof -
  have h: "\<forall>c\<in>set ('' '' @ NL). is_space c" by (simp add: NL_def is_space_def)
  with blank_text_summary [of "'' '' @ NL"] show ?thesis by (simp add: list_all_iff)
qed

text \<open>
  C5 (amended). On a text that is not blank and has fewer than 30 white-space separated
  words, the summarizer returns the text with its leading and trailing white space
  removed as the summary and as the only key point, with no action item; a text that has
  no white space at either end is returned as it is.
\<close>

theorem short_text_passthrough:
  assumes "js_trim text \<noteq> []" and "length (split_ws (js_trim text)) < 30"
  shows "summary (generateAdvancedSummary text) = js_trim text \<and>
         keyPoints (generateAdvancedSummary text) = [js_trim text] \<and>
         actionItems (generateAdvancedSummary text) = [] \<and>
         (js_trim text = text \<longrightarrow>
            summary (generateAdvancedSummary text) = text \<and>
            keyPoints (generateAdvancedSummary text) = [text])"
  using summary_short [OF assms] by simp

theorem short_text_passthrough_witness:
  "js_trim ''We must finish the report by Friday.'' \<noteq> [] \<and>
   length (split_ws (js_trim ''We must finish the report by Friday.'')) < 30 \<and>
   js_trim ''We must finish the report by Friday.'' = ''We must finish the report by Friday.'' \<and>
   summary (generateAdvancedSummary ''We must finish the report by Friday.'')
     = ''We must finish the report by Friday.'' \<and>
   keyPoints (generateAdvancedSummary ''We must finish the report by Friday.'')
     = [''We must finish the report by Friday.''] \<and>
   actionItems (generateAdvancedSummary ''We must finish the report by Friday.'') = []"
proof -
  let ?t = "''We must finish the report by Friday.''"
  have h1: "js_trim ?t = ?t" by code_simp
  then have h2: "js_trim ?t \<noteq> []" by simp
  have h3: "length (split_ws (js_trim ?t)) < 30" by code_simp
  from short_text_passthrough [OF h2 h3] h1 h2 h3 show ?thesis by simp
qed

text \<open>
  The claim as the specification states it fails on a text with white space at an end:
  the summary of \<open>'' hi''\<close> is \<open>''hi''\<close>, not the text itself.
\<close>

theorem short_text_passthrough_counterexample:
  "length (split_ws '' hi'') < 30 \<and> js_trim '' hi'' \<noteq> [] \<and>
   summary (generateAdvancedSummary '' hi'') \<noteq> '' hi'' \<and>
   keyPoints (generateAdvancedSummary '' hi'') \<noteq> ['' hi'']"
proof -
  have t: "js_trim '' hi'' = ''hi''" by code_simp
  have w: "length (split_ws ''hi'') < 30" "length (split_ws '' hi'') < 30" by code_simp+
  have "generateAdvancedSummary '' hi'' =
     \<lparr>keyPoints = [''hi''], summary = ''hi'', actionItems = [],
      wordCount = length (split_ws ''hi''), sentenceCount = 1, compressionRatio = None\<rparr>"
    using summary_short [of "'' hi''"] w unfolding t by simp
  with t w show ?thesis by simp
qed

subsection \<open>The selection of the summary\<close>

lemma select_loop_take:
  "select_loop t xs (sel, parts) =
     (sel |\<union>| fset_of_list (map index (take (t - length parts) xs)),
      parts @ map (\<lambda>item. (index item, sentence item)) (take (t - length parts) xs))"
proof (induction xs arbitrary: sel parts)
  case Nil
  show ?case by simp
next
  case (Cons x xs)
  show ?case
  proof (cases "t \<le> length parts")
    case True
    then show ?thesis by simp
  next
    case False
    then obtain k where k: "t - length parts = Suc k" by (cases "t - length parts") auto
    then have k': "t - length (parts @ [(index x, sentence x)]) = k" by simp
    show ?thesis
      using False unfolding select_loop.simps k take_Suc_Cons
      by (simp only: Cons.IH k' not_le [symmetric]) auto
  qed
qed

lemma index_combinedScores: "map index (combinedScores ss) = [0..<length ss]"
  by (simp add: combinedScores_def Let_def comp_def)

lemma sentence_combinedScores:
  "item \<in> set (combinedScores ss) \<Longrightarrow> index item < length ss \<and> sentence item = ss ! index item"
  by (auto simp: combinedScores_def Let_def)

lemma length_combinedScores: "length (combinedScores ss) = length ss"
  by (simp add: combinedScores_def Let_def)

text \<open>Any ranking of the scored sentences, whatever the scores.\<close>

lemma selection_of_ranking:
  fixes ranked :: "scored list" and ss :: "string list" and t :: nat
  assumes "mset ranked = mset (combinedScores ss)"
  defines "parts \<equiv> sort_key fst (snd (select_loop t ranked ({||}, [])))"
  shows "length parts \<le> t"
    and "length parts \<le> length ss"
    and "sorted_wrt (<) (map fst parts)"
    and "\<forall>p\<in>set parts. fst p < length ss \<and> snd p = ss ! fst p"
proof -
  let ?sel = "map (\<lambda>item. (index item, sentence item)) (take t ranked)"
  have parts: "parts = sort_key fst ?sel"
    by (simp add: parts_def select_loop_take)
  have "mset (map index ranked) = mset (map index (combinedScores ss))"
    using assms(1) by simp
  then have "mset (map index ranked) = mset [0..<length ss]"
    by (simp only: index_combinedScores)
  then have "distinct (map index ranked)"
    by (metis distinct_upt mset_eq_imp_distinct_iff)
  then have "distinct (take t (map index ranked))" by (rule distinct_take)
  then have d: "distinct (map fst ?sel)" by (simp add: take_map comp_def)
  have "length ranked = length ss"
    using assms(1) length_combinedScores by (metis size_mset)
  then show "length parts \<le> t" "length parts \<le> length ss" by (simp_all add: parts)
  have "mset parts = mset ?sel" by (simp add: parts)
  then have "mset (map fst parts) = mset (map fst ?sel)" by (metis mset_map)
  then have "distinct (map fst parts)"
    using d by (rule mset_eq_imp_distinct_iff [THEN iffD2])
  moreover have "sorted (map fst parts)" unfolding parts by (rule sorted_sort_key)
  ultimately show "sorted_wrt (<) (map fst parts)" by (simp add: strict_sorted_iff)
  show "\<forall>p\<in>set parts. fst p < length ss \<and> snd p = ss ! fst p"
  proof
    fix p assume "p \<in> set parts"
    then have "p \<in> set ?sel" by (simp add: parts)
    then obtain item where i: "item \<in> set (take t ranked)" and p: "p = (index item, sentence item)"
      by auto
    from i have "item \<in> set ranked" by (rule in_set_takeD)
    then have "item \<in> set (combinedScores ss)" using assms(1) by (metis mset_eq_setD)
    then show "fst p < length ss \<and> snd p = ss ! fst p"
      using sentence_combinedScores p by simp
  qed
qed

lemma mset_rankedSentences: "mset (rankedSentences cs) = mset cs"
  by (simp add: rankedSentences_def)

lemma summary_long:
  "30 \<le> length (split_ws (js_trim text)) \<Longrightarrow>
   generateAdvancedSummary text =
     \<lparr>keyPoints = keyPointsOf (splitIntoSentences (js_trim text)),
      summary = (if summaryText (splitIntoSentences (js_trim text)) \<noteq> []
                 then summaryText (splitIntoSentences (js_trim text))
                 else take 200 (js_trim text) @ ''...''),
      actionItems = actionItemsOf (splitIntoSentences (js_trim text)),
      wordCount = length (split_ws (js_trim text)),
      sentenceCount = length (splitIntoSentences (js_trim text)),
      compressionRatio =
        Some (js_round
          (double_of
             (double_of
                (of_nat (length (split_ws (summaryText (splitIntoSentences (js_trim text)))))
                 / of_nat (length (split_ws (js_trim text))))
              * 100)))\<rparr>"
proof -
  assume a: "30 \<le> length (split_ws (js_trim text))"
  have "js_trim text \<noteq> []"
  proof
    assume "js_trim text = []"
    then have "length (split_ws (js_trim text)) = 1" by (simp add: split_ws_def)
    with a show False by simp
  qed
  with a show ?thesis by (simp add: generateAdvancedSummary_def Let_def)
qed

lemma word_chunks_long: "c \<in> set (word_chunks ws) \<Longrightarrow> 15 < length c"
proof (induction ws rule: word_chunks.induct)
  case (1 ws)
  show ?case
  proof (cases "ws = []")
    case True
    have "word_chunks ws = []" by (subst word_chunks.simps) (simp add: True)
    with "1.prems" show ?thesis by simp
  next
    case False
    let ?chunk = "js_join '' '' (take 15 ws)"
    have e: "word_chunks ws = (if 15 < length ?chunk then [?chunk] else []) @ word_chunks (drop 15 ws)"
      by (subst word_chunks.simps) (simp add: False Let_def)
    from "1.prems" consider "c = ?chunk" "15 < length ?chunk"
      | "c \<in> set (word_chunks (drop 15 ws))"
      unfolding e by (auto split: if_splits)
    then show ?thesis
    proof cases
      case 1
      then show ?thesis by simp
    next
      case 2
      then show ?thesis by (rule "1.IH" [OF False refl])
    qed
  qed
qed

lemma splitIntoSentences_long: "s \<in> set (splitIntoSentences text) \<Longrightarrow> 10 < length s"
proof -
  assume a: "s \<in> set (splitIntoSentences text)"
  let ?s1 = "filter (\<lambda>s. length s > 10) (map js_trim (split_str ''|||'' (mark_sentence_ends text)))"
  let ?s2' = "filter (\<lambda>s. length s > 15)
                (map js_trim (split_str ''|||'' (mark_conjunctions (mark_commas text))))"
  let ?s2 = "if length ?s1 < 3 \<and> length text > 100 then ?s2' else ?s1"
  let ?s3 = "if length ?s2 < 3 \<and> length text > 100 then word_chunks (split_ws text) else ?s2"
  have e: "splitIntoSentences text = ?s3"
    unfolding splitIntoSentences_def Let_def ..
  have 1: "\<forall>s\<in>set ?s1. 10 < length s" by simp
  have 2: "\<forall>s\<in>set ?s2'. 10 < length s" by simp
  have 3: "\<forall>s\<in>set (word_chunks (split_ws text)). 10 < length s"
    using word_chunks_long by fastforce
  from 1 2 have 4: "\<forall>s\<in>set ?s2. 10 < length s" by presburger
  from 3 4 have "\<forall>s\<in>set ?s3. 10 < length s" by presburger
  with a show ?thesis unfolding e by blast
qed

lemma collapse_dots_eq_Nil [simp]: "collapse_dots s = [] \<longleftrightarrow> s = []"
  by (induction s rule: collapse_dots.induct) auto

lemma summaryText_eq_Nil:
  "summaryText (splitIntoSentences text) = [] \<longleftrightarrow> summaryParts (splitIntoSentences text) = []"
proof -
  let ?ss = "splitIntoSentences text"
  have "\<forall>p\<in>set (summaryParts ?ss). fst p < length ?ss \<and> snd p = ?ss ! fst p"
    using selection_of_ranking(4) [OF mset_rankedSentences,
        where ss = "?ss" and t = "targetSentences (length ?ss)"]
    by (simp only: summaryParts_def)
  then have "\<forall>p\<in>set (summaryParts ?ss). snd p \<in> set ?ss" by auto
  then have "\<forall>s\<in>set (map snd (summaryParts ?ss)). 10 < length s"
    using splitIntoSentences_long [of _ "text"] by fastforce
  then have "\<forall>s\<in>set (map snd (summaryParts ?ss)). s \<noteq> []"
    by fastforce
  then show ?thesis
    by (simp add: summaryText_def js_join_eq_Nil)
qed

text \<open>
  C4. For a text of at least 30 words that the segmenter splits into N segments, the
  summarizer selects at most min(max(2, ceil(0.3 N)), 5) segments; the selected parts
  are segments of the text, each under its own index, in strictly ascending index order
  (document order, whatever the ranking); and the summary string is their join, or the
  cut text when the join is empty.
\<close>

theorem summary_selection_bound:
  assumes "30 \<le> length (split_ws (js_trim text))"
  shows "length (summaryParts (splitIntoSentences (js_trim text)))
           \<le> min (max 2 (nat \<lceil>0.3 * real (length (splitIntoSentences (js_trim text)))\<rceil>)) 5 \<and>
         sorted_wrt (<) (map fst (summaryParts (splitIntoSentences (js_trim text)))) \<and>
         (\<forall>p\<in>set (summaryParts (splitIntoSentences (js_trim text))).
            fst p < length (splitIntoSentences (js_trim text)) \<and>
            snd p = splitIntoSentences (js_trim text) ! fst p) \<and>
         sentenceCount (generateAdvancedSummary text) = length (splitIntoSentences (js_trim text)) \<and>
         summary (generateAdvancedSummary text) =
           (if summaryParts (splitIntoSentences (js_trim text)) = []
            then take 200 (js_trim text) @ ''...''
            else collapse_dots (js_join ''. ''
                   (map snd (summaryParts (splitIntoSentences (js_trim text))))))"
proof -
  let ?ss = "splitIntoSentences (js_trim text)"
  note sel = selection_of_ranking [OF mset_rankedSentences,
      where ss = "?ss" and t = "targetSentences (length ?ss)", folded summaryParts_def]
  have "length (summaryParts ?ss) \<le> min (max 2 (nat \<lceil>0.3 * real (length ?ss)\<rceil>)) 5"
    using sel(1) by (simp add: targetSentences_def mult.commute)
  moreover note sel(3) sel(4)
  moreover have "sentenceCount (generateAdvancedSummary text) = length ?ss"
    by (simp add: summary_long [OF assms])
  moreover have "summary (generateAdvancedSummary text) =
           (if summaryParts ?ss = [] then take 200 (js_trim text) @ ''...''
            else collapse_dots (js_join ''. '' (map snd (summaryParts ?ss))))"
    by (simp add: summary_long [OF assms] summaryText_eq_Nil) (simp add: summaryText_def)
  ultimately show ?thesis by blast
qed

theorem summary_selection_bound_witness:
  "30 \<le> length (split_ws (js_trim
     ''This is important for the whole project team. We must finish the quarterly report by Friday afternoon. The weather was nice during the long weekend trip. Finally the budget discussion went well and everyone agreed.'')) \<and>
   length (splitIntoSentences (js_trim
     ''This is important for the whole project team. We must finish the quarterly report by Friday afternoon. The weather was nice during the long weekend trip. Finally the budget discussion went well and everyone agreed.'')) = 4 \<and>
   length (summaryParts (splitIntoSentences (js_trim
     ''This is important for the whole project team. We must finish the quarterly report by Friday afternoon. The weather was nice during the long weekend trip. Finally the budget discussion went well and everyone agreed.''))) \<le> 2 \<and>
   sorted_wrt (<) (map fst (summaryParts (splitIntoSentences (js_trim
     ''This is important for the whole project team. We must finish the quarterly report by Friday afternoon. The weather was nice during the long weekend trip. Finally the budget discussion went well and everyone agreed.''))))"
proof -
  let ?t = "''This is important for the whole project team. We must finish the quarterly report by Friday afternoon. The weather was nice during the long weekend trip. Finally the budget discussion went well and everyone agreed.''"
  have h: "30 \<le> length (split_ws (js_trim ?t))" by code_simp
  have n: "length (splitIntoSentences (js_trim ?t)) = 4" by code_simp
  have b: "min (max 2 (nat \<lceil>0.3 * real (4::nat)\<rceil>)) 5 = (2::nat)" by simp
  from summary_selection_bound [OF h] show ?thesis
    unfolding n b using h by blast
qed

subsection \<open>The compression ratio\<close>

lemma bit_length_upper: "n < 2 ^ bit_length n"
proof (induction n rule: bit_length.induct)
  case (1 n)
  show ?case
  proof (cases "n \<le> 0")
    case True
    then show ?thesis by (simp add: bit_length.simps [of n])
  next
    case False
    then have "n div 2 < 2 ^ bit_length (n div 2)" by (rule "1.IH")
    then have "n < 2 * 2 ^ bit_length (n div 2)" by linarith
    then show ?thesis using False by (simp add: bit_length.simps [of n])
  qed
qed

lemma bit_length_lower: "0 < n \<Longrightarrow> 2 ^ bit_length n \<le> 2 * n"
proof (induction n rule: bit_length.induct)
  case (1 n)
  then have pos: "\<not> n \<le> 0" by simp
  show ?case
  proof (cases "n = 1")
    case True
    have "bit_length (0::int) = 0" by (simp add: bit_length.simps [of 0])
    then have "bit_length (1::int) = 1" by (simp add: bit_length.simps [of 1])
    with True show ?thesis by simp
  next
    case False
    with "1.prems" have "0 < n div 2" by linarith
    with "1.IH" [OF pos] have "2 ^ bit_length (n div 2) \<le> 2 * (n div 2)" by simp
    also have "\<dots> \<le> n" by linarith
    finally have "2 * 2 ^ bit_length (n div 2) \<le> 2 * n" by linarith
    then show ?thesis using pos by (simp add: bit_length.simps [of n])
  qed
qed

lemma double_exponent_le:
  assumes "0 < x"
  shows "2 powi double_exponent x \<le> x"
proof -
  obtain p q where pq: "quotient_of x = (p, q)" by (cases "quotient_of x")
  then have q: "0 < q" by (rule quotient_of_denom_pos)
  have x: "x = of_int p / of_int q" using pq by (rule quotient_of_div)
  have p: "0 < p"
  proof (rule ccontr)
    assume "\<not> 0 < p"
    then have "of_int p / (of_int q :: rat) \<le> 0"
      using q by (simp add: divide_nonpos_pos)
    with x assms show False by simp
  qed
  let ?a = "bit_length p" and ?b = "bit_length q"
  let ?d = "int ?a - int ?b"
  have e: "double_exponent x = (if 2 powi ?d \<le> x then ?d else ?d - 1)"
    by (simp add: double_exponent_def pq Let_def)
  have "(2::rat) powi (?d - 1) = 2 ^ ?a / (2 ^ ?b * 2)"
    by (simp add: power_int_diff power_int_add)
  also have "\<dots> \<le> (2 * of_int p) / (2 ^ ?b * 2)"
  proof -
    have "(2::int) ^ ?a \<le> 2 * p" using p by (rule bit_length_lower)
    then have "(of_int (2 ^ ?a) :: rat) \<le> of_int (2 * p)" by (simp only: of_int_le_iff)
    then have "(2::rat) ^ ?a \<le> 2 * of_int p" by simp
    moreover have "(0::rat) \<le> 2 ^ ?b * 2" by simp
    ultimately show ?thesis by (rule divide_right_mono)
  qed
  also have "\<dots> = of_int p / 2 ^ ?b" by simp
  also have "\<dots> \<le> of_int p / of_int q"
  proof -
    have "q \<le> 2 ^ ?b" using bit_length_upper [of q] by simp
    then have "(of_int q :: rat) \<le> of_int (2 ^ ?b)" by (simp only: of_int_le_iff)
    then have "(of_int q :: rat) \<le> 2 ^ ?b" by simp
    moreover have "(0::rat) < of_int q" using q by simp
    moreover have "(0::rat) \<le> of_int p" using p by simp
    ultimately show ?thesis by (simp add: frac_le)
  qed
  finally have "(2::rat) powi (?d - 1) \<le> x" unfolding x .
  then show ?thesis unfolding e by simp
qed

lemma round_half_even_near: "\<bar>of_int (round_half_even y) - y\<bar> \<le> 1 / 2"
proof -
  have f: "of_int \<lfloor>y\<rfloor> \<le> y" "y < of_int \<lfloor>y\<rfloor> + 1" by linarith+
  show ?thesis
  proof (cases "y - of_int \<lfloor>y\<rfloor> < 1 / 2")
    case True
    then have "round_half_even y = \<lfloor>y\<rfloor>" by (simp add: round_half_even_def Let_def)
    with True f show ?thesis by simp
  next
    case False
    then have "round_half_even y = \<lfloor>y\<rfloor> \<and> y - of_int \<lfloor>y\<rfloor> = 1 / 2 \<or>
               round_half_even y = \<lfloor>y\<rfloor> + 1"
      by (auto simp: round_half_even_def Let_def)
    then show ?thesis
    proof
      assume "round_half_even y = \<lfloor>y\<rfloor> \<and> y - of_int \<lfloor>y\<rfloor> = 1 / 2"
      then show ?thesis by simp
    next
      assume r: "round_half_even y = \<lfloor>y\<rfloor> + 1"
      from False f have "\<bar>of_int (\<lfloor>y\<rfloor> + 1) - y\<bar> \<le> 1 / 2" by simp
      with r show ?thesis by simp
    qed
  qed
qed

lemma double_of_error:
  assumes "0 < x"
  shows "\<bar>double_of x - x\<bar> \<le> x / 2 ^ 53"
proof -
  let ?e = "double_exponent x"
  let ?u = "(2::rat) powi (?e - 52)"
  let ?m = "round_half_even (x / ?u)"
  have u: "0 < ?u" by simp
  have d: "double_of x = of_int ?m * ?u"
    using assms by (simp add: double_of_def Let_def)
  have "\<bar>of_int ?m - x / ?u\<bar> \<le> 1 / 2" by (rule round_half_even_near)
  then have "\<bar>of_int ?m - x / ?u\<bar> * ?u \<le> 1 / 2 * ?u"
    using u by (simp only: mult_le_cancel_right_pos)
  moreover have "\<bar>of_int ?m - x / ?u\<bar> * ?u = \<bar>of_int ?m * ?u - x\<bar>"
  proof -
    have "\<bar>of_int ?m - x / ?u\<bar> * ?u = \<bar>(of_int ?m - x / ?u) * ?u\<bar>"
      using u by (simp add: abs_mult)
    also have "(of_int ?m - x / ?u) * ?u = of_int ?m * ?u - x"
      using u by (simp add: field_simps)
    finally show ?thesis .
  qed
  ultimately have "\<bar>double_of x - x\<bar> \<le> 1 / 2 * ?u" unfolding d by simp
  also have "1 / 2 * ?u = 2 powi ?e / 2 ^ 53"
    by (simp add: power_int_diff)
  also have "\<dots> \<le> x / 2 ^ 53"
    using double_exponent_le [OF assms] by (simp add: divide_right_mono)
  finally show ?thesis .
qed

lemma percent_near:
  fixes n wc :: nat
  assumes wc: "0 < wc" and n: "n < 2 ^ 32"
  shows "\<bar>of_int (js_round (double_of (double_of (of_nat n / of_nat wc) * 100)))
          - 100 * (of_nat n / of_nat wc)\<bar> \<le> (1 / 2 :: rat)"
proof (cases "n = 0")
  case True
  have "\<lfloor>(1 / 2 :: rat)\<rfloor> = 0" by linarith
  with True show ?thesis by (simp add: double_of_def js_round_def)
next
  case False
  define w :: rat where "w = of_nat wc"
  define q :: rat where "q = of_nat n / w"
  define X :: rat where "X = 100 * q"
  define f1 where "f1 = double_of q"
  define y where "y = double_of (f1 * 100)"
  define k where "k = \<lfloor>X + 1 / 2\<rfloor>"
  define d :: rat where "d = 1 / 2 ^ 53"
  have w: "0 < w" using wc by (simp add: w_def)
  have q: "0 < q" using False w by (simp add: q_def)
  define t where "t = q * d"
  have e1: "\<bar>f1 - q\<bar> \<le> t"
    using double_of_error [OF q] by (simp add: f1_def d_def t_def)
  have d1: "d \<le> 1" "0 < d" by (simp_all add: d_def)
  have t: "t \<le> q" "t < q" "0 < t"
    using q d1 by (simp_all add: t_def d_def)
  from e1 t have f1: "f1 \<le> 2 * q" and f1pos: "0 < f1" by linarith+
  from f1pos have "0 < f1 * 100" by simp
  then have "\<bar>y - f1 * 100\<bar> \<le> f1 * 100 * d"
    using double_of_error [of "f1 * 100"] by (simp add: y_def d_def)
  also have "\<dots> \<le> (2 * q) * 100 * d"
    using f1 d1 by (simp add: mult_right_mono)
  also have "\<dots> = 200 * t" by (simp add: t_def)
  finally have e2: "\<bar>y - f1 * 100\<bar> \<le> 200 * t" .
  have "y - X = (y - f1 * 100) + 100 * (f1 - q)" by (simp add: X_def)
  then have "\<bar>y - X\<bar> \<le> \<bar>y - f1 * 100\<bar> + \<bar>100 * (f1 - q)\<bar>"
    by (simp only: abs_triangle_ineq)
  also have "\<bar>100 * (f1 - q)\<bar> = 100 * \<bar>f1 - q\<bar>"
    by (simp only: abs_mult abs_numeral)
  also have "\<bar>y - f1 * 100\<bar> + 100 * \<bar>f1 - q\<bar> \<le> 200 * t + 100 * t"
    using e1 e2 by (intro add_mono mult_left_mono) simp_all
  finally have e: "\<bar>y - X\<bar> \<le> 300 * t" by simp
  have small: "300 * t < 1 / (2 * w)"
  proof -
    have "600 * n < 2 ^ 53"
    proof -
      have "600 * n < 600 * 2 ^ 32" using n by simp
      also have "\<dots> \<le> (2::nat) ^ 53" by simp
      finally show ?thesis .
    qed
    then have "(of_nat (600 * n) :: rat) < of_nat (2 ^ 53)" by (simp only: of_nat_less_iff)
    then have a: "600 * (of_nat n :: rat) < 2 ^ 53" by simp
    have "300 * t = (600 * of_nat n / 2 ^ 53) * (1 / (2 * w))"
      using w by (simp add: t_def q_def d_def)
    also have "\<dots> < 1 * (1 / (2 * w))"
      using a w by (intro mult_strict_right_mono) simp_all
    finally show ?thesis by simp
  qed
  have k: "of_int k \<le> X + 1 / 2" "X + 1 / 2 < of_int k + 1"
    unfolding k_def by linarith+
  have Xw: "X * (2 * w) = of_int (200 * int n)"
    using w by (simp add: X_def q_def)
  text \<open>The gap above.\<close>
  have "X * (2 * w) < (of_int k + 1 / 2) * (2 * w)"
    using k(2) w by (simp add: mult_strict_right_mono)
  then have "(of_int (200 * int n) :: rat) < of_int ((2 * k + 1) * int wc)"
    unfolding Xw by (simp add: w_def field_simps)
  then have "200 * int n < (2 * k + 1) * int wc" by (simp only: of_int_less_iff)
  then have "200 * int n + 1 \<le> (2 * k + 1) * int wc" by simp
  then have "(of_int (200 * int n + 1) :: rat) \<le> of_int ((2 * k + 1) * int wc)"
    by (simp only: of_int_le_iff)
  then have "X * (2 * w) + 1 \<le> (of_int k + 1 / 2) * (2 * w)"
    unfolding Xw by (simp add: w_def field_simps)
  then have up: "X + 1 / (2 * w) \<le> of_int k + 1 / 2"
    using w by (simp add: field_simps)
  from e small up have yk: "y < of_int k + 1 / 2" by linarith
  then have rk: "js_round y \<le> k" unfolding js_round_def by linarith
  text \<open>The gap below, when there is one.\<close>
  show ?thesis
  proof (cases "X = of_int k - 1 / 2")
    case True
    have "1 / (2 * w) \<le> 1 / 2"
      using wc by (simp add: w_def field_simps)
    with e small True have "of_int k - 1 < y" by linarith
    then have "k - 1 \<le> js_round y" unfolding js_round_def by linarith
    with rk have "js_round y = k \<or> js_round y = k - 1" by linarith
    then have "\<bar>of_int (js_round y) - X\<bar> \<le> 1 / 2" using True by auto
    then show ?thesis by (simp add: y_def f1_def X_def q_def w_def)
  next
    case False
    with k(1) have "(of_int k - 1 / 2) * (2 * w) < X * (2 * w)"
      using w by (simp add: mult_strict_right_mono)
    then have "(of_int ((2 * k - 1) * int wc) :: rat) < of_int (200 * int n)"
      unfolding Xw by (simp add: w_def field_simps)
    then have "(2 * k - 1) * int wc < 200 * int n" by (simp only: of_int_less_iff)
    then have "(2 * k - 1) * int wc + 1 \<le> 200 * int n" by simp
    then have "(of_int ((2 * k - 1) * int wc + 1) :: rat) \<le> of_int (200 * int n)"
      by (simp only: of_int_le_iff)
    then have "(of_int k - 1 / 2) * (2 * w) + 1 \<le> X * (2 * w)"
      unfolding Xw by (simp add: w_def field_simps)
    then have "of_int k - 1 / 2 + 1 / (2 * w) \<le> X"
      using w by (simp add: field_simps)
    with e small have "of_int k - 1 / 2 < y" by linarith
    then have "k \<le> js_round y" unfolding js_round_def by linarith
    with rk have "js_round y = k" by simp
    moreover from k have "\<bar>of_int k - X\<bar> \<le> 1 / 2" by linarith
    ultimately have "\<bar>of_int (js_round y) - X\<bar> \<le> 1 / 2" by (simp only:)
    then show ?thesis by (simp add: y_def f1_def X_def q_def w_def)
  qed
qed


lemma selection_length:
  fixes ranked :: "scored list" and ss :: "string list" and t :: nat
  assumes "mset ranked = mset (combinedScores ss)"
  shows "length (sort_key fst (snd (select_loop t ranked ({||}, [])))) = min t (length ss)"
proof -
  have "length ranked = length ss"
    using assms length_combinedScores by (metis size_mset)
  then show ?thesis by (simp add: select_loop_take min.commute)
qed

lemma summaryParts_single: "summaryParts [s] = [(0, s)]"
proof -
  obtain x y where c: "combinedScores [s] = [\<lparr>sentence = s, index = 0, score = x, isAction = y\<rparr>]"
    by (simp add: combinedScores_def Let_def)
  have t: "targetSentences (length [s]) = 2"
    by (simp add: targetSentences_def)
  show ?thesis
    unfolding summaryParts_def c t rankedSentences_def by (simp add: select_loop_take)
qed

text \<open>Two segments are both selected, and stand in the order of the text.\<close>

lemma summaryParts_pair: "summaryParts [s1, s2] = [(0, s1), (1, s2)]"
proof -
  let ?ss = "[s1, s2]"
  have t: "targetSentences (length ?ss) = 2"
    by (simp add: targetSentences_def)
  note sel = selection_of_ranking [OF mset_rankedSentences,
      where ss = "?ss" and t = "targetSentences (length ?ss)", folded summaryParts_def]
  have "length (summaryParts ?ss) = min (targetSentences (length ?ss)) (length ?ss)"
    unfolding summaryParts_def by (rule selection_length [OF mset_rankedSentences])
  then have "length (summaryParts ?ss) = 2" unfolding t by simp
  then obtain p1 p2 where p: "summaryParts ?ss = [p1, p2]"
    by (auto simp: length_Suc_conv numeral_2_eq_2)
  from sel(3) p have "fst p1 < fst p2" by simp
  moreover from sel(4) p have "fst p2 < 2" "fst p1 < 2" by simp_all
  ultimately have f: "fst p1 = 0" "fst p2 = 1" by linarith+
  from sel(4) p f have "snd p1 = s1" "snd p2 = s2" by simp_all
  with f have "p1 = (0, s1)" "p2 = (1, s2)" by (simp_all add: prod_eq_iff)
  with p show ?thesis by simp
qed

lemma forty_words:
  "js_trim ''a a a a a a a a a a a a. a a a a a a a a a a a. b b b b b. b b b b b. b b b b b. b b'' =
   ''a a a a a a a a a a a a. a a a a a a a a a a a. b b b b b. b b b b b. b b b b b. b b''"
  "length (split_ws ''a a a a a a a a a a a a. a a a a a a a a a a a. b b b b b. b b b b b. b b b b b. b b'') = 40"
  "splitIntoSentences ''a a a a a a a a a a a a. a a a a a a a a a a a. b b b b b. b b b b b. b b b b b. b b'' =
   [''a a a a a a a a a a a a.'', ''a a a a a a a a a a a.'']"
  "collapse_dots (js_join ''. '' [''a a a a a a a a a a a a.'', ''a a a a a a a a a a a.'']) =
   ''a a a a a a a a a a a a. a a a a a a a a a a a.''"
  "length (split_ws ''a a a a a a a a a a a a. a a a a a a a a a a a.'') = 23"
  "js_round (double_of (double_of (23 / 40) * 100)) = 57"
  by code_simp+

lemma thirty_words:
  "js_trim ''a a a a a a a a a a a a a a a a a a a a a a a a a a a a a a'' =
   ''a a a a a a a a a a a a a a a a a a a a a a a a a a a a a a''"
  "length (split_ws ''a a a a a a a a a a a a a a a a a a a a a a a a a a a a a a'') = 30"
  "splitIntoSentences ''a a a a a a a a a a a a a a a a a a a a a a a a a a a a a a'' =
   [''a a a a a a a a a a a a a a a a a a a a a a a a a a a a a a'']"
  "collapse_dots ''a a a a a a a a a a a a a a a a a a a a a a a a a a a a a a'' =
   ''a a a a a a a a a a a a a a a a a a a a a a a a a a a a a a''"
  "js_round (double_of (double_of (of_nat 30 / of_nat 30) * 100)) = 100"
  by code_simp+

lemma thirty_words_summary:
  "generateAdvancedSummary ''a a a a a a a a a a a a a a a a a a a a a a a a a a a a a a'' =
     \<lparr>keyPoints = keyPointsOf [''a a a a a a a a a a a a a a a a a a a a a a a a a a a a a a''],
      summary = ''a a a a a a a a a a a a a a a a a a a a a a a a a a a a a a'',
      actionItems = actionItemsOf [''a a a a a a a a a a a a a a a a a a a a a a a a a a a a a a''],
      wordCount = 30, sentenceCount = 1, compressionRatio = Some 100\<rparr>"
proof -
  let ?t = "''a a a a a a a a a a a a a a a a a a a a a a a a a a a a a a''"
  have h: "30 \<le> length (split_ws (js_trim ?t))"
    by (simp add: thirty_words)
  have s: "summaryText [?t] = ?t"
    by (simp add: summaryText_def summaryParts_single thirty_words)
  show ?thesis
    unfolding summary_long [OF h] thirty_words s by (simp add: thirty_words)
qed

text \<open>
  C6 (amended). For a text of at least 30 words of which at least one segment is
  selected, \<open>compressionRatio\<close> is \<^verbatim>\<open>Math.round\<close> of a hundred times the quotient of the
  number of white-space separated words of the summary string by the word count of the
  trimmed text, the quotient and the product each rounded to a double: a whole
  percentage, within one half of a hundred times the exact quotient, and not the
  quotient. (An array has fewer than \<open>2 ^ 32\<close> elements.) Nothing is said of a text of
  which no segment is selected.
\<close>

theorem compression_ratio_percent:
  assumes "30 \<le> length (split_ws (js_trim text))"
    and "summaryParts (splitIntoSentences (js_trim text)) \<noteq> []"
    and "length (split_ws (summary (generateAdvancedSummary text))) < 2 ^ 32"
  shows "compressionRatio (generateAdvancedSummary text) =
           Some (js_round
             (double_of
                (double_of
                   (of_nat (length (split_ws (summary (generateAdvancedSummary text))))
                    / of_nat (wordCount (generateAdvancedSummary text)))
                 * 100))) \<and>
         wordCount (generateAdvancedSummary text) = length (split_ws (js_trim text)) \<and>
         (\<exists>r. compressionRatio (generateAdvancedSummary text) = Some r \<and>
              \<bar>of_int r -
               100 * (of_nat (length (split_ws (summary (generateAdvancedSummary text))))
                      / of_nat (wordCount (generateAdvancedSummary text)))\<bar> \<le> (1 / 2 :: rat))"
proof -
  let ?ss = "splitIntoSentences (js_trim text)"
  let ?n = "length (split_ws (summary (generateAdvancedSummary text)))"
  let ?wc = "length (split_ws (js_trim text))"
  have w: "wordCount (generateAdvancedSummary text) = ?wc"
    by (simp add: summary_long [OF assms(1)])
  have s: "summary (generateAdvancedSummary text) = summaryText ?ss"
    using assms(2) by (simp add: summary_long [OF assms(1)] summaryText_eq_Nil)
  have c: "compressionRatio (generateAdvancedSummary text) =
             Some (js_round (double_of (double_of (of_nat ?n / of_nat ?wc) * 100)))"
    unfolding s by (simp add: summary_long [OF assms(1)])
  have "0 < ?wc" using assms(1) by linarith
  then have "\<bar>of_int (js_round (double_of (double_of (of_nat ?n / of_nat ?wc) * 100)))
              - 100 * (of_nat ?n / of_nat ?wc)\<bar> \<le> (1 / 2 :: rat)"
    using assms(3) by (rule percent_near)
  with c w show ?thesis by (simp only: w) blast
qed

text \<open>
  A text of 40 words with two segments of 12 and 11 words: the summary has 23 words, a
  hundred times the double nearest to 23/40 is just below 57.5, and the ratio is 57.
\<close>

theorem compression_ratio_percent_witness:
  "30 \<le> length (split_ws (js_trim
     ''a a a a a a a a a a a a. a a a a a a a a a a a. b b b b b. b b b b b. b b b b b. b b'')) \<and>
   summaryParts (splitIntoSentences (js_trim
     ''a a a a a a a a a a a a. a a a a a a a a a a a. b b b b b. b b b b b. b b b b b. b b'')) \<noteq> [] \<and>
   summary (generateAdvancedSummary
     ''a a a a a a a a a a a a. a a a a a a a a a a a. b b b b b. b b b b b. b b b b b. b b'') =
     ''a a a a a a a a a a a a. a a a a a a a a a a a.'' \<and>
   length (split_ws (summary (generateAdvancedSummary
     ''a a a a a a a a a a a a. a a a a a a a a a a a. b b b b b. b b b b b. b b b b b. b b''))) = 23 \<and>
   wordCount (generateAdvancedSummary
     ''a a a a a a a a a a a a. a a a a a a a a a a a. b b b b b. b b b b b. b b b b b. b b'') = 40 \<and>
   compressionRatio (generateAdvancedSummary
     ''a a a a a a a a a a a a. a a a a a a a a a a a. b b b b b. b b b b b. b b b b b. b b'') = Some 57"
proof -
  let ?t = "''a a a a a a a a a a a a. a a a a a a a a a a a. b b b b b. b b b b b. b b b b b. b b''"
  have h: "30 \<le> length (split_ws (js_trim ?t))"
    by (simp add: forty_words)
  have p: "summaryParts (splitIntoSentences (js_trim ?t)) \<noteq> []"
    by (simp add: forty_words summaryParts_pair)
  have s: "summary (generateAdvancedSummary ?t) =
             ''a a a a a a a a a a a a. a a a a a a a a a a a.''"
    by (simp add: summary_long [OF h] summaryText_def summaryParts_pair forty_words)
  have n: "length (split_ws (summary (generateAdvancedSummary ?t))) < 2 ^ 32"
    unfolding s by (simp add: forty_words)
  from compression_ratio_percent [OF h p n]
  have "compressionRatio (generateAdvancedSummary ?t) =
          Some (js_round
            (double_of
               (double_of
                  (of_nat (length (split_ws (summary (generateAdvancedSummary ?t))))
                   / of_nat (wordCount (generateAdvancedSummary ?t)))
                * 100)))"
    and "wordCount (generateAdvancedSummary ?t) = length (split_ws (js_trim ?t))"
    by blast+
  then have "wordCount (generateAdvancedSummary ?t) = 40"
    and "compressionRatio (generateAdvancedSummary ?t) = Some 57"
    unfolding s by (simp_all add: forty_words)
  with h p s show ?thesis by (simp add: forty_words)
qed

text \<open>
  The claim as the specification states it fails: for the text of thirty words \<open>a\<close> the
  summary is the text, thirty words of thirty, and \<open>compressionRatio\<close> is 100, not the
  quotient 1.
\<close>

theorem compression_ratio_percent_counterexample:
  "30 \<le> length (split_ws (js_trim ''a a a a a a a a a a a a a a a a a a a a a a a a a a a a a a'')) \<and>
   length (split_ws (summary (generateAdvancedSummary
     ''a a a a a a a a a a a a a a a a a a a a a a a a a a a a a a''))) = 30 \<and>
   wordCount (generateAdvancedSummary ''a a a a a a a a a a a a a a a a a a a a a a a a a a a a a a'') = 30 \<and>
   compressionRatio (generateAdvancedSummary ''a a a a a a a a a a a a a a a a a a a a a a a a a a a a a a'')
     = Some 100 \<and>
   map_option real_of_int
     (compressionRatio (generateAdvancedSummary ''a a a a a a a a a a a a a a a a a a a a a a a a a a a a a a''))
   \<noteq> Some (real (length (split_ws (summary (generateAdvancedSummary
               ''a a a a a a a a a a a a a a a a a a a a a a a a a a a a a a''))))
           / real (wordCount (generateAdvancedSummary
               ''a a a a a a a a a a a a a a a a a a a a a a a a a a a a a a'')))"
  by (simp add: thirty_words_summary thirty_words)

section \<open>Note enhancement: the claims\<close>

subsection \<open>The layout of the enhanced document\<close>

lemma fold_append_concat:
  assumes "\<And>x e. f x e = e @ g x"
  shows "fold f xs e0 = e0 @ concat (map g xs)"
  by (induction xs arbitrary: e0) (simp_all add: assms)

lemma section_step:
  assumes "\<And>x e. f x e = e @ g x"
  shows "(if length xs > 0 then fold f xs (e @ h) @ NL else e) = e @ optional_section h (map g xs)"
  by (simp add: optional_section_def fold_append_concat [of f g, OF assms])

lemma section_step_take:
  assumes "\<And>x e. f x e = e @ g x" and "0 < k"
  shows "(if length xs > 0 then fold f (take k xs) (e @ h) @ NL else e) =
         e @ optional_section h (map g (take k xs))"
  using assms(2)
  by (simp add: optional_section_def fold_append_concat [of f g, OF assms(1)] take_eq_Nil)

lemma enhanced_layout:
  "generateEnhancedNotes existingNotes transcription =
     ''# Enhanced Notes'' @ NL @ NL @
     ''## Original Notes'' @ NL @
     concat (map (\<lambda>line. (if is_list_item line then line else ''- '' @ line) @ NL)
               (noteLines existingNotes)) @ NL @
     optional_section
       (''## Expanded Details from Recording'' @ NL @
        ''_Information from the recording that relates to your notes:_'' @ NL @ NL)
       (map (\<lambda>item. ''- '' @ fst item @ NL) (take 6 (relatedInfo existingNotes transcription))) @
     optional_section
       (''## New Information from Recording'' @ NL @
        ''_Additional topics discussed that weren't in your original notes:_'' @ NL @ NL)
       (map (\<lambda>s. ''- '' @ s @ NL) (take 5 (newInfo existingNotes transcription))) @
     optional_section (''## Key Points'' @ NL)
       (map (\<lambda>point. ''- '' @ point @ NL)
          (take 5 (keyPoints (generateAdvancedSummary transcription)))) @
     optional_section (''## Action Items'' @ NL)
       (map (\<lambda>item. ''- [ ] '' @ item @ NL) (actionItems (generateAdvancedSummary transcription))) @
     ''## Recording Summary'' @ NL @ summary (generateAdvancedSummary transcription) @ NL"
proof -
  have f1: "fold (\<lambda>line e. if is_list_item line then e @ line @ NL else e @ ''- '' @ line @ NL) xs e0 =
            e0 @ concat (map (\<lambda>line. (if is_list_item line then line else ''- '' @ line) @ NL) xs)"
    for xs e0
    by (rule fold_append_concat) simp
  have s1: "(if length xs > 0 then fold (\<lambda>item e. e @ ''- '' @ fst item @ NL) (take 6 xs) (e @ h) @ NL
             else e) =
            e @ optional_section h (map (\<lambda>item. ''- '' @ fst item @ NL) (take 6 xs))"
    for xs :: "(string \<times> nat) list" and e h
    by (rule section_step_take) simp_all
  have s2: "(if length xs > 0 then fold (\<lambda>s e. e @ ''- '' @ s @ NL) (take 5 xs) (e @ h) @ NL else e) =
            e @ optional_section h (map (\<lambda>s. ''- '' @ s @ NL) (take 5 xs))"
    for xs e h
    by (rule section_step_take) simp_all
  have s3: "(if length xs > 0 then fold (\<lambda>item e. e @ ''- [ ] '' @ item @ NL) xs (e @ h) @ NL else e) =
            e @ optional_section h (map (\<lambda>item. ''- [ ] '' @ item @ NL) xs)"
    for xs e h
    by (rule section_step) simp
  show ?thesis
    unfolding generateEnhancedNotes_def Let_def f1 s1 s2 s3
    by (simp only: append_assoc)
qed

subsection \<open>The lines of the notes\<close>

lemma split_str_from_not_Nil: "split_str_from sep cur s \<noteq> []"
  by (induction sep cur s rule: split_str_from.induct) auto

lemma js_join_split_str_from:
  "js_join sep (split_str_from sep cur s) = cur @ s"
proof (induction sep cur s rule: split_str_from.induct)
  case (1 sep cur)
  show ?case by simp
next
  case (2 sep cur c cs)
  show ?case
  proof (cases "sep \<noteq> [] \<and> prefix sep (c # cs)")
    case True
    then obtain r where r: "c # cs = sep @ r" by (auto simp: prefix_def)
    have ne: "split_str_from sep [] (drop (length sep) (c # cs)) \<noteq> []"
      by (rule split_str_from_not_Nil)
    have "split_str_from sep cur (c # cs) =
            cur # split_str_from sep [] (drop (length sep) (c # cs))"
      using True by simp
    then have "js_join sep (split_str_from sep cur (c # cs)) =
            cur @ sep @ js_join sep (split_str_from sep [] (drop (length sep) (c # cs)))"
      using js_join_Cons [OF ne, of sep cur] by (simp only:)
    also have "\<dots> = cur @ sep @ drop (length sep) (c # cs)"
      using "2.IH"(1) True by simp
    also have "\<dots> = cur @ c # cs" unfolding r by simp
    finally show ?thesis .
  next
    case False
    then show ?thesis using "2.IH"(2) by auto
  qed
qed

lemma js_join_split_str: "js_join sep (split_str sep s) = s"
  by (simp add: split_str_def js_join_split_str_from)

lemma split_str_from_no_sep:
  "c \<notin> set cur \<Longrightarrow> l \<in> set (split_str_from [c] cur s) \<Longrightarrow> c \<notin> set l"
proof (induction "[c]" cur s rule: split_str_from.induct)
  case (1 cur)
  then show ?case by simp
next
  case (2 cur c' cs)
  show ?case
  proof (cases "c' = c")
    case True
    with "2.prems" have "l = cur \<or> l \<in> set (split_str_from [c] [] cs)" by simp
    then show ?thesis
    proof
      assume "l = cur"
      with "2.prems" show ?thesis by simp
    next
      assume "l \<in> set (split_str_from [c] [] cs)"
      moreover have "[c] \<noteq> [] \<and> prefix [c] (c' # cs)" using True by simp
      ultimately show ?thesis using "2.hyps"(1) by simp
    qed
  next
    case False
    then have n: "\<not> ([c] \<noteq> [] \<and> prefix [c] (c' # cs))" by simp
    from "2.prems" False have "l \<in> set (split_str_from [c] (cur @ [c']) cs)" by simp
    moreover have "c \<notin> set (cur @ [c'])" using "2.prems"(1) False by simp
    ultimately show ?thesis using "2.hyps"(2) [OF n] by simp
  qed
qed

lemma set_js_trim: "set (js_trim s) \<subseteq> set s"
proof
  fix c assume "c \<in> set (js_trim s)"
  then have "c \<in> set (dropWhile is_space (rev (dropWhile is_space s)))"
    by (simp add: js_trim_def)
  then have "c \<in> set (rev (dropWhile is_space s))" by (rule set_dropWhileD)
  then have "c \<in> set (dropWhile is_space s)" by simp
  then show "c \<in> set s" by (rule set_dropWhileD)
qed

lemma noteLines_line:
  assumes "line \<in> set (noteLines existingNotes)"
  shows "line \<noteq> [] \<and> js_trim line = line \<and> CHR 0x0A \<notin> set line"
proof -
  from assms obtain l where l: "l \<in> set (split_str NL existingNotes)" and t: "line = js_trim l"
    and ne: "line \<noteq> []"
    by (auto simp: noteLines_def)
  from l have "CHR 0x0A \<notin> set l"
    unfolding split_str_def NL_def by (rule split_str_from_no_sep [rotated]) simp
  then have "CHR 0x0A \<notin> set line" using set_js_trim [of l] t by auto
  with t ne show ?thesis by simp
qed

lemma optional_section_prefix:
  "prefix p h \<Longrightarrow> prefix p r \<Longrightarrow> prefix p (optional_section h es @ r)"
  by (auto simp: optional_section_def prefix_def)

text \<open>
  C8 (amended). The enhanced document is, in this order: the title; the section Original
  Notes with one entry for each note line, present also when there is no note line; the
  section of related details with at most 6 entries; the section of new information with
  at most 5 entries; the section of key points with at most 5 entries; the section of
  action items with one unchecked checklist entry for each action item; and the section
  Recording Summary, always present. Each of the four sections in the middle is left out
  entirely when it has no entry.
\<close>

theorem enhanced_document_layout:
  "generateEnhancedNotes existingNotes transcription =
     ''# Enhanced Notes'' @ NL @ NL @
     ''## Original Notes'' @ NL @
     concat (map (\<lambda>line. (if is_list_item line then line else ''- '' @ line) @ NL)
               (noteLines existingNotes)) @ NL @
     optional_section
       (''## Expanded Details from Recording'' @ NL @
        ''_Information from the recording that relates to your notes:_'' @ NL @ NL)
       (map (\<lambda>item. ''- '' @ fst item @ NL) (take 6 (relatedInfo existingNotes transcription))) @
     optional_section
       (''## New Information from Recording'' @ NL @
        ''_Additional topics discussed that weren't in your original notes:_'' @ NL @ NL)
       (map (\<lambda>s. ''- '' @ s @ NL) (take 5 (newInfo existingNotes transcription))) @
     optional_section (''## Key Points'' @ NL)
       (map (\<lambda>point. ''- '' @ point @ NL)
          (take 5 (keyPoints (generateAdvancedSummary transcription)))) @
     optional_section (''## Action Items'' @ NL)
       (map (\<lambda>item. ''- [ ] '' @ item @ NL) (actionItems (generateAdvancedSummary transcription))) @
     ''## Recording Summary'' @ NL @ summary (generateAdvancedSummary transcription) @ NL \<and>
   length (take 6 (relatedInfo existingNotes transcription)) \<le> 6 \<and>
   length (take 5 (newInfo existingNotes transcription)) \<le> 5 \<and>
   length (take 5 (keyPoints (generateAdvancedSummary transcription))) \<le> 5"
  using enhanced_layout [of existingNotes transcription] by simp

lemma blank_notes_document:
  "generateEnhancedNotes '' '' ''hi'' =
     ''# Enhanced Notes'' @ NL @ NL @
     ''## Original Notes'' @ NL @ NL @
     ''## Key Points'' @ NL @ ''- hi'' @ NL @ NL @
     ''## Recording Summary'' @ NL @ ''hi'' @ NL"
proof -
  have n: "noteLines '' '' = []" by code_simp
  have s: "splitIntoSentences ''hi'' = []" by code_simp
  have r: "relatedInfo '' '' ''hi'' = []" by (simp add: relatedInfo_def s)
  have w: "newInfo '' '' ''hi'' = []" by (simp add: newInfo_def s)
  have t: "js_trim ''hi'' = ''hi''" "length (split_ws ''hi'') = 1" by code_simp+
  have g: "generateAdvancedSummary ''hi'' =
     \<lparr>keyPoints = [''hi''], summary = ''hi'', actionItems = [], wordCount = 1,
      sentenceCount = 1, compressionRatio = None\<rparr>"
    using summary_short [of "''hi''"] by (simp add: t)
  show ?thesis
    unfolding enhanced_layout n r w g by (simp add: optional_section_def)
qed

text \<open>
  The claim as the specification states it fails for notes that are blank: the section
  Original Notes has no entry and is in the document all the same.
\<close>

theorem enhanced_document_layout_counterexample:
  "noteLines '' '' = [] \<and>
   generateEnhancedNotes '' '' ''hi'' =
     ''# Enhanced Notes'' @ NL @ NL @
     ''## Original Notes'' @ NL @ NL @
     ''## Key Points'' @ NL @ ''- hi'' @ NL @ NL @
     ''## Recording Summary'' @ NL @ ''hi'' @ NL \<and>
   sublist ''## Original Notes'' (generateEnhancedNotes '' '' ''hi'')"
proof -
  have n: "noteLines '' '' = []" by code_simp
  have "sublist ''## Original Notes'' (generateEnhancedNotes '' '' ''hi'')"
    unfolding blank_notes_document
    by (rule sublist_appendI [of _ "''# Enhanced Notes'' @ NL @ NL", simplified append_assoc])
  with n blank_notes_document show ?thesis by blast
qed

lemma scenario_classified:
  "fold (classify (noteLines (''- Discuss budget'' @ NL @ ''- Review timeline'')))
     (splitIntoSentences
        ''The budget discussion went well and we agreed on a new timeline for next quarter.'')
     ([], []) =
   ([(''The budget discussion went well and we agreed on a new timeline for next quarter.'', 2)],
    [])"
  by code_simp

text \<open>
  The scenario of the specification: the sentence of the transcription shares the topics
  \<open>budget\<close> and \<open>timeline\<close> with the notes, so it is an entry of the section of related
  details, and the section of new information is left out.
\<close>

theorem enhanced_document_layout_witness:
  "generateEnhancedNotes (''- Discuss budget'' @ NL @ ''- Review timeline'')
     ''The budget discussion went well and we agreed on a new timeline for next quarter.'' =
   ''# Enhanced Notes'' @ NL @ NL @
   ''## Original Notes'' @ NL @
   ''- Discuss budget'' @ NL @
   ''- Review timeline'' @ NL @ NL @
   ''## Expanded Details from Recording'' @ NL @
   ''_Information from the recording that relates to your notes:_'' @ NL @ NL @
   ''- The budget discussion went well and we agreed on a new timeline for next quarter.'' @ NL @ NL @
   ''## Key Points'' @ NL @
   ''- The budget discussion went well and we agreed on a new timeline for next quarter.'' @ NL @ NL @
   ''## Recording Summary'' @ NL @
   ''The budget discussion went well and we agreed on a new timeline for next quarter.'' @ NL"
proof -
  let ?en = "''- Discuss budget'' @ NL @ ''- Review timeline''"
  let ?tr = "''The budget discussion went well and we agreed on a new timeline for next quarter.''"
  have n: "noteLines ?en = [''- Discuss budget'', ''- Review timeline'']" by code_simp
  have i: "is_list_item ''- Discuss budget''" "is_list_item ''- Review timeline''" by code_simp+
  have r: "relatedInfo ?en ?tr = [(?tr, 2)]"
    unfolding relatedInfo_def scenario_classified by simp
  have w: "newInfo ?en ?tr = []"
    unfolding newInfo_def scenario_classified by simp
  have t: "js_trim ?tr = ?tr" "length (split_ws ?tr) = 15" by code_simp+
  have g: "generateAdvancedSummary ?tr =
     \<lparr>keyPoints = [?tr], summary = ?tr, actionItems = [], wordCount = 15,
      sentenceCount = 1, compressionRatio = None\<rparr>"
    using summary_short [of ?tr] by (simp add: t)
  from enhanced_document_layout [of ?en ?tr] show ?thesis
    unfolding n r w g by (simp add: i optional_section_def)
qed

text \<open>
  C9. The section Original Notes, which opens the document, holds one entry for each
  non-blank trimmed line of the existing notes, in the order of the notes: the line
  itself when it is a list item, the line after a dash and a space otherwise. The lines
  are the pieces of the notes between line feeds, trimmed, the empty ones left out;
  what follows the section begins with the heading of another section.
\<close>

theorem original_notes_preserved:
  "(\<exists>rest. generateEnhancedNotes existingNotes transcription =
            ''# Enhanced Notes'' @ NL @ NL @
            ''## Original Notes'' @ NL @
            concat (map (\<lambda>line. (if is_list_item line then line else ''- '' @ line) @ NL)
                      (noteLines existingNotes)) @ NL @ rest \<and>
          prefix ''## '' rest) \<and>
   noteLines existingNotes =
     filter (\<lambda>line. line \<noteq> []) (map js_trim (split_str NL existingNotes)) \<and>
   js_join NL (split_str NL existingNotes) = existingNotes \<and>
   (\<forall>line\<in>set (noteLines existingNotes).
      line \<noteq> [] \<and> js_trim line = line \<and> CHR 0x0A \<notin> set line)"
proof -
  let ?rest = "optional_section
       (''## Expanded Details from Recording'' @ NL @
        ''_Information from the recording that relates to your notes:_'' @ NL @ NL)
       (map (\<lambda>item. ''- '' @ fst item @ NL) (take 6 (relatedInfo existingNotes transcription))) @
     optional_section
       (''## New Information from Recording'' @ NL @
        ''_Additional topics discussed that weren't in your original notes:_'' @ NL @ NL)
       (map (\<lambda>s. ''- '' @ s @ NL) (take 5 (newInfo existingNotes transcription))) @
     optional_section (''## Key Points'' @ NL)
       (map (\<lambda>point. ''- '' @ point @ NL)
          (take 5 (keyPoints (generateAdvancedSummary transcription)))) @
     optional_section (''## Action Items'' @ NL)
       (map (\<lambda>item. ''- [ ] '' @ item @ NL) (actionItems (generateAdvancedSummary transcription))) @
     ''## Recording Summary'' @ NL @ summary (generateAdvancedSummary transcription) @ NL"
  have "prefix ''## '' ?rest"
    by (intro optional_section_prefix) (simp_all add: prefix_def)
  moreover have "generateEnhancedNotes existingNotes transcription =
            ''# Enhanced Notes'' @ NL @ NL @
            ''## Original Notes'' @ NL @
            concat (map (\<lambda>line. (if is_list_item line then line else ''- '' @ line) @ NL)
                      (noteLines existingNotes)) @ NL @ ?rest"
    by (rule enhanced_layout)
  ultimately have 1: "\<exists>rest. generateEnhancedNotes existingNotes transcription =
            ''# Enhanced Notes'' @ NL @ NL @
            ''## Original Notes'' @ NL @
            concat (map (\<lambda>line. (if is_list_item line then line else ''- '' @ line) @ NL)
                      (noteLines existingNotes)) @ NL @ rest \<and>
          prefix ''## '' rest"
    by blast
  have 2: "noteLines existingNotes =
     filter (\<lambda>line. line \<noteq> []) (map js_trim (split_str NL existingNotes))"
    by (simp add: noteLines_def)
  have 3: "js_join NL (split_str NL existingNotes) = existingNotes"
    by (rule js_join_split_str)
  have 4: "\<forall>line\<in>set (noteLines existingNotes).
      line \<noteq> [] \<and> js_trim line = line \<and> CHR 0x0A \<notin> set line"
    using noteLines_line by blast
  from 1 2 3 4 show ?thesis by blast
qed

theorem original_notes_preserved_witness:
  "noteLines (''- Discuss budget'' @ NL @ ''   '' @ NL @ '' Review timeline '') =
     [''- Discuss budget'', ''Review timeline''] \<and>
   js_trim ''Review timeline'' = ''Review timeline'' \<and>
   prefix (''# Enhanced Notes'' @ NL @ NL @
           ''## Original Notes'' @ NL @
           ''- Discuss budget'' @ NL @
           ''- Review timeline'' @ NL @ NL @ ''## '')
     (generateEnhancedNotes (''- Discuss budget'' @ NL @ ''   '' @ NL @ '' Review timeline '') ''hi'')"
proof -
  let ?en = "''- Discuss budget'' @ NL @ ''   '' @ NL @ '' Review timeline ''"
  have n: "noteLines ?en = [''- Discuss budget'', ''Review timeline'']" by code_simp
  have i: "is_list_item ''- Discuss budget''" "\<not> is_list_item ''Review timeline''" by code_simp+
  from original_notes_preserved [of ?en "''hi''"] obtain rest where
    e: "generateEnhancedNotes ?en ''hi'' =
            ''# Enhanced Notes'' @ NL @ NL @
            ''## Original Notes'' @ NL @
            concat (map (\<lambda>line. (if is_list_item line then line else ''- '' @ line) @ NL)
                      (noteLines ?en)) @ NL @ rest"
    and p: "prefix ''## '' rest"
    and t: "\<forall>line\<in>set (noteLines ?en). line \<noteq> [] \<and> js_trim line = line \<and> CHR 0x0A \<notin> set line"
    by blast
  from p obtain r where r: "rest = ''## '' @ r" by (auto simp: prefix_def)
  from t have "js_trim ''Review timeline'' = ''Review timeline''" unfolding n by simp
  moreover have "prefix (''# Enhanced Notes'' @ NL @ NL @
           ''## Original Notes'' @ NL @
           ''- Discuss budget'' @ NL @
           ''- Review timeline'' @ NL @ NL @ ''## '') (generateEnhancedNotes ?en ''hi'')"
    unfolding e n r by (simp add: i prefix_def)
  ultimately show ?thesis using n by blast
qed

end
